theory Spec2Isabelle
  imports Complex_Main "HOL-Library.Sublist" "HOL-Library.AList"
begin

section \<open>Geometry\<close>

text \<open>
  \<^verbatim>\<open>Vector3 = namedtuple('Vector3', ['x', 'y', 'z'])\<close>.
  Python floats are modelled as real numbers: arithmetic is exact, and the only arithmetic
  failure kept is the division by a zero magnitude, which raises \<^verbatim>\<open>ZeroDivisionError\<close>.
\<close>

datatype Vector3 = Vector3 (vx: real) (vy: real) (vz: real)

datatype error = ZeroDivisionError | IndexError | KeyError | ValueError

definition origin :: Vector3 where
  "origin = Vector3 0 0 0"

definition beams_per_satellite :: nat where
  "beams_per_satellite = 32"

definition colors_per_satellite :: nat where
  "colors_per_satellite = 4"

definition self_interference_max :: real where
  "self_interference_max = 10"

definition non_starlink_interference_max :: real where
  "non_starlink_interference_max = 20"

definition max_user_visible_angle :: real where
  "max_user_visible_angle = 45"

definition degrees :: "real \<Rightarrow> real" where
  "degrees r = r * 180 / pi"

text \<open>
  \<^verbatim>\<open>calculate_angle_degrees(vertex, point_a, point_b)\<close>: the two normalisations divide by
  \<^verbatim>\<open>va_mag\<close> and then by \<^verbatim>\<open>vb_mag\<close>; a float division by zero raises.
  The warning printed when the clamp moves the dot product is output only and is left out.
\<close>

definition calculate_angle_degrees :: "Vector3 \<Rightarrow> Vector3 \<Rightarrow> Vector3 \<Rightarrow> error + real" where
  "calculate_angle_degrees vertex point_a point_b =
     (let va = Vector3 (vx point_a - vx vertex) (vy point_a - vy vertex) (vz point_a - vz vertex);
          vb = Vector3 (vx point_b - vx vertex) (vy point_b - vy vertex) (vz point_b - vz vertex);
          va_mag = sqrt ((vx va)\<^sup>2 + (vy va)\<^sup>2 + (vz va)\<^sup>2);
          vb_mag = sqrt ((vx vb)\<^sup>2 + (vy vb)\<^sup>2 + (vz vb)\<^sup>2)
      in if va_mag = 0 then Inl ZeroDivisionError
         else if vb_mag = 0 then Inl ZeroDivisionError
         else
           let va_norm = Vector3 (vx va / va_mag) (vy va / va_mag) (vz va / va_mag);
               vb_norm = Vector3 (vx vb / vb_mag) (vy vb / vb_mag) (vz vb / vb_mag);
               dot_product = vx va_norm * vx vb_norm + vy va_norm * vy vb_norm
                             + vz va_norm * vz vb_norm;
               dot_product_bound = min 1 (max (- 1) dot_product)
           in Inr (degrees (arccos dot_product_bound)))"

section \<open>Python lists, dictionaries and integer conversions\<close>

text \<open>
  A list index may be negative (it then counts from the end); an index out of range raises
  \<^verbatim>\<open>IndexError\<close>.
\<close>

definition py_norm_index :: "nat \<Rightarrow> int \<Rightarrow> error + nat" where
  "py_norm_index n i =
     (let j = (if i < 0 then i + int n else i)
      in if 0 \<le> j \<and> j < int n then Inr (nat j) else Inl IndexError)"

definition py_get :: "'a list \<Rightarrow> int \<Rightarrow> error + 'a" where
  "py_get xs i = (case py_norm_index (length xs) i of Inl e \<Rightarrow> Inl e | Inr j \<Rightarrow> Inr (xs ! j))"

definition py_set :: "'a list \<Rightarrow> int \<Rightarrow> 'a \<Rightarrow> error + 'a list" where
  "py_set xs i x = (case py_norm_index (length xs) i of Inl e \<Rightarrow> Inl e | Inr j \<Rightarrow> Inr (xs[j := x]))"

text \<open>A loop whose body may raise: the first error ends it.\<close>

fun fold_err :: "('a \<Rightarrow> 's \<Rightarrow> error + 's) \<Rightarrow> 'a list \<Rightarrow> 's \<Rightarrow> error + 's" where
  "fold_err f [] s = Inr s"
| "fold_err f (x # xs) s = (case f x s of Inl e \<Rightarrow> Inl e | Inr s' \<Rightarrow> fold_err f xs s')"

text \<open>
  A dictionary keeps its keys in insertion order: an association list with distinct keys.
  \<^verbatim>\<open>d[k]\<close> raises \<^verbatim>\<open>KeyError\<close> on a missing key.
\<close>

type_synonym objects = "(string \<times> Vector3) list"

definition dict_get :: "('k \<times> 'v) list \<Rightarrow> 'k \<Rightarrow> error + 'v" where
  "dict_get d k = (case map_of d k of None \<Rightarrow> Inl KeyError | Some v \<Rightarrow> Inr v)"

text \<open>\<^verbatim>\<open>str(n)\<close> of an integer: its decimal digits, with a minus sign when negative.\<close>

definition digit_char :: "nat \<Rightarrow> char" where
  "digit_char d = char_of (48 + d)"

fun str_nat :: "nat \<Rightarrow> string" where
  "str_nat n = (if n < 10 then [digit_char n] else str_nat (n div 10) @ [digit_char (n mod 10)])"

definition str :: "int \<Rightarrow> string" where
  "str i = (if i < 0 then CHR ''-'' # str_nat (nat (- i)) else str_nat (nat i))"

text \<open>
  \<^verbatim>\<open>int(s)\<close> of a token (a string without white space): an optional sign, then decimal
  digits, where single underscores may separate digits; anything else raises
  \<^verbatim>\<open>ValueError\<close>.
\<close>

definition is_digit :: "char \<Rightarrow> bool" where
  "is_digit c = (48 \<le> (of_char c :: nat) \<and> (of_char c :: nat) \<le> 57)"

definition digit_val :: "char \<Rightarrow> nat" where
  "digit_val c = of_char c - 48"

fun digits_val :: "nat \<Rightarrow> string \<Rightarrow> nat option" where
  "digits_val acc [] = Some acc"
| "digits_val acc (c # cs) =
     (if is_digit c then digits_val (acc * 10 + digit_val c) cs
      else if c = CHR ''_'' then
        (case cs of [] \<Rightarrow> None | d # _ \<Rightarrow> if is_digit d then digits_val acc cs else None)
      else None)"

definition unsigned_int :: "string \<Rightarrow> nat option" where
  "unsigned_int s =
     (case s of [] \<Rightarrow> None | c # _ \<Rightarrow> if is_digit c then digits_val 0 s else None)"

definition py_int :: "string \<Rightarrow> error + int" where
  "py_int s =
     (case s of
        [] \<Rightarrow> Inl ValueError
      | c # rest \<Rightarrow>
          if c = CHR ''-'' then
            (case unsigned_int rest of None \<Rightarrow> Inl ValueError | Some n \<Rightarrow> Inr (- int n))
          else if c = CHR ''+'' then
            (case unsigned_int rest of None \<Rightarrow> Inl ValueError | Some n \<Rightarrow> Inr (int n))
          else
            (case unsigned_int s of None \<Rightarrow> Inl ValueError | Some n \<Rightarrow> Inr (int n)))"

section \<open>The visibility matrix\<close>

datatype BeamState = AVAILIBLE | IN_USE | UNAVAILIBLE

type_synonym matrix = "BeamState list list"

record scenario =
  sats :: objects
  users :: objects
  interferers :: objects

text \<open>\<^verbatim>\<open>v[r][c]\<close> and \<^verbatim>\<open>v[r][c] = state\<close>; the row is updated in place.\<close>

definition get_cell :: "matrix \<Rightarrow> int \<Rightarrow> int \<Rightarrow> error + BeamState" where
  "get_cell v r c = (case py_get v r of Inl e \<Rightarrow> Inl e | Inr row \<Rightarrow> py_get row c)"

definition set_cell :: "matrix \<Rightarrow> int \<Rightarrow> int \<Rightarrow> BeamState \<Rightarrow> error + matrix" where
  "set_cell v r c state =
     (case py_norm_index (length v) r of
        Inl e \<Rightarrow> Inl e
      | Inr r' \<Rightarrow> (case py_set (v ! r') c state of Inl e \<Rightarrow> Inl e | Inr row \<Rightarrow> Inr (v[r' := row])))"

text \<open>
  \<^verbatim>\<open>generate_visibility_matrix\<close>. The inner loop over the interferers stops at the first
  one closer than \<^verbatim>\<open>non_starlink_interference_max\<close>.
\<close>

fun interferer_violation :: "Vector3 \<Rightarrow> Vector3 \<Rightarrow> objects \<Rightarrow> error + bool" where
  "interferer_violation user_pos sat_pos [] = Inr False"
| "interferer_violation user_pos sat_pos ((interferer_id, interferer_pos) # rest) =
     (case calculate_angle_degrees user_pos interferer_pos sat_pos of
        Inl e \<Rightarrow> Inl e
      | Inr interferer_angle \<Rightarrow>
          if interferer_angle < non_starlink_interference_max then Inr True
          else interferer_violation user_pos sat_pos rest)"

text \<open>The body of \<^verbatim>\<open>for i in range(colors_per_satellite)\<close>.\<close>

definition mark_available :: "string \<Rightarrow> string \<Rightarrow> nat \<Rightarrow> matrix \<Rightarrow> error + matrix" where
  "mark_available user_id sat_id i v =
     (case py_int sat_id of
        Inl e \<Rightarrow> Inl e
      | Inr s \<Rightarrow>
          (case py_int user_id of
             Inl e \<Rightarrow> Inl e
           | Inr u \<Rightarrow>
               set_cell v (u - 1) ((s - 1) * int colors_per_satellite + int i) AVAILIBLE))"

text \<open>The body of the loop over the satellites, for one user.\<close>

definition visit_pair ::
  "scenario \<Rightarrow> string \<times> Vector3 \<Rightarrow> string \<times> Vector3 \<Rightarrow> matrix \<Rightarrow> error + matrix" where
  "visit_pair scenario user sat v =
     (case calculate_angle_degrees (snd user) origin (snd sat) of
        Inl e \<Rightarrow> Inl e
      | Inr angle \<Rightarrow>
          if angle \<le> 180 - max_user_visible_angle then Inr v
          else
            (case interferer_violation (snd user) (snd sat) (interferers scenario) of
               Inl e \<Rightarrow> Inl e
             | Inr violation \<Rightarrow>
                 if violation then Inr v
                 else fold_err (mark_available (fst user) (fst sat))
                        [0..<colors_per_satellite] v))"

definition generate_visibility_matrix :: "scenario \<Rightarrow> error + matrix" where
  "generate_visibility_matrix scenario =
     (let sat_dim = length (sats scenario) * colors_per_satellite;
          user_dim = length (users scenario);
          v = replicate user_dim (replicate sat_dim UNAVAILIBLE)
      in fold_err (\<lambda>user. fold_err (visit_pair scenario user) (sats scenario))
           (users scenario) v)"

section \<open>Constraint propagation and the greedy solver\<close>

definition set_user_beam :: "matrix \<Rightarrow> int \<Rightarrow> int \<Rightarrow> int \<Rightarrow> BeamState \<Rightarrow> error + matrix" where
  "set_user_beam v user_i color_i sat_id state =
     set_cell v user_i ((sat_id - 1) * int colors_per_satellite + color_i) state"

text \<open>
  The branch of a saturated satellite, for one row:
  \<^verbatim>\<open>for i in range(sat_i, sat_i + colors_per_satellite)\<close>.
\<close>

definition mark_full_cell :: "int \<Rightarrow> BeamState list \<Rightarrow> error + BeamState list" where
  "mark_full_cell i user =
     (case py_get user i of
        Inl e \<Rightarrow> Inl e
      | Inr state \<Rightarrow> if state = AVAILIBLE then py_set user i UNAVAILIBLE else Inr user)"

definition mark_full_row :: "int \<Rightarrow> BeamState list \<Rightarrow> error + BeamState list" where
  "mark_full_row sat_i user =
     fold_err mark_full_cell (map (\<lambda>k. sat_i + int k) [0..<colors_per_satellite]) user"

text \<open>The body of \<^verbatim>\<open>for user_i in range(num_users)\<close> in \<^verbatim>\<open>update_visibility\<close>, on the row
  \<^verbatim>\<open>v[user_i]\<close>.\<close>

definition update_row ::
  "scenario \<Rightarrow> Vector3 \<Rightarrow> bool \<Rightarrow> int \<Rightarrow> int \<Rightarrow> int \<Rightarrow> nat \<Rightarrow> BeamState list
     \<Rightarrow> error + BeamState list" where
  "update_row scenario target_user_pos mark_sat_full sat_id sat_i sat_i_color_i user_i user =
     (if mark_sat_full then mark_full_row sat_i user
      else
        (case py_get user sat_i_color_i of
           Inl e \<Rightarrow> Inl e
         | Inr state \<Rightarrow>
             if state \<noteq> AVAILIBLE then Inr user
             else
               (case dict_get (users scenario) (str (int user_i + 1)) of
                  Inl e \<Rightarrow> Inl e
                | Inr user_pos \<Rightarrow>
                    (case dict_get (sats scenario) (str sat_id) of
                       Inl e \<Rightarrow> Inl e
                     | Inr sat_pos \<Rightarrow>
                         (case calculate_angle_degrees sat_pos target_user_pos user_pos of
                            Inl e \<Rightarrow> Inl e
                          | Inr angle \<Rightarrow>
                              if angle < self_interference_max
                              then py_set user sat_i_color_i UNAVAILIBLE
                              else Inr user)))))"

text \<open>A loop over the rows by index, each iteration rewriting its own row.\<close>

definition for_rows :: "(nat \<Rightarrow> BeamState list \<Rightarrow> error + BeamState list) \<Rightarrow> matrix \<Rightarrow> error + matrix" where
  "for_rows body v =
     fold_err (\<lambda>user_i v. case body user_i (v ! user_i) of
                            Inl e \<Rightarrow> Inl e
                          | Inr user \<Rightarrow> Inr (v[user_i := user]))
       [0..<length v] v"

definition update_visibility ::
  "matrix \<Rightarrow> scenario \<Rightarrow> nat \<Rightarrow> int \<Rightarrow> nat \<Rightarrow> nat \<Rightarrow> error + matrix" where
  "update_visibility v scenario target_user_i sat_id color_i beam_i =
     (case set_user_beam v (int target_user_i) (int color_i) sat_id IN_USE of
        Inl e \<Rightarrow> Inl e
      | Inr v1 \<Rightarrow>
          (case dict_get (users scenario) (str (int target_user_i + 1)) of
             Inl e \<Rightarrow> Inl e
           | Inr target_user_pos \<Rightarrow>
               let mark_sat_full = (beam_i = beams_per_satellite - 1);
                   sat_i = (sat_id - 1) * int colors_per_satellite;
                   sat_i_color_i = sat_i + int color_i
               in (case py_get v1 0 of
                     Inl e \<Rightarrow> Inl e
                   | Inr row0 \<Rightarrow>
                       for_rows (update_row scenario target_user_pos mark_sat_full sat_id
                                   sat_i sat_i_color_i) v1)))"

text \<open>
  The solution dictionary maps a satellite id to its list of beams \<^verbatim>\<open>[user, color]\<close>, in
  insertion order.
\<close>

type_synonym solution = "(nat \<times> (nat \<times> nat) list) list"

definition beams_of :: "solution \<Rightarrow> nat \<Rightarrow> (nat \<times> nat) list" where
  "beams_of solution sat_id = (case map_of solution sat_id of None \<Rightarrow> [] | Some sat \<Rightarrow> sat)"

text \<open>The scan \<^verbatim>\<open>for sat_beam_i in range(num_sat_beam)\<close> up to the first available cell.\<close>

fun find_available :: "BeamState list \<Rightarrow> nat list \<Rightarrow> error + nat option" where
  "find_available user [] = Inr None"
| "find_available user (sat_beam_i # rest) =
     (case py_get user (int sat_beam_i) of
        Inl e \<Rightarrow> Inl e
      | Inr sat_beam_status \<Rightarrow>
          if sat_beam_status = AVAILIBLE then Inr (Some sat_beam_i)
          else find_available user rest)"

text \<open>The body of \<^verbatim>\<open>if sat_beam_status == BeamState.AVAILIBLE\<close>, before the \<^verbatim>\<open>break\<close>.\<close>

definition assign_beam ::
  "scenario \<Rightarrow> nat \<Rightarrow> nat \<Rightarrow> matrix \<times> solution \<Rightarrow> error + matrix \<times> solution" where
  "assign_beam scenario user_i sat_beam_i state =
     (let v = fst state; solution = snd state;
          sat_id = sat_beam_i div colors_per_satellite + 1;
          color_i = sat_beam_i mod colors_per_satellite;
          new_beam = (user_i + 1, color_i);
          solution' = AList.update sat_id (beams_of solution sat_id @ [new_beam]) solution;
          current_beam_i = length (beams_of solution' sat_id) - 1
      in case update_visibility v scenario user_i (int sat_id) color_i current_beam_i of
           Inl e \<Rightarrow> Inl e
         | Inr v' \<Rightarrow> Inr (v', solution'))"

definition schedule_user ::
  "scenario \<Rightarrow> nat \<Rightarrow> nat \<Rightarrow> matrix \<times> solution \<Rightarrow> error + matrix \<times> solution" where
  "schedule_user scenario num_sat_beam user_i state =
     (case py_get (fst state) (int user_i) of
        Inl e \<Rightarrow> Inl e
      | Inr user \<Rightarrow>
          (case find_available user [0..<num_sat_beam] of
             Inl e \<Rightarrow> Inl e
           | Inr None \<Rightarrow> Inr state
           | Inr (Some sat_beam_i) \<Rightarrow> assign_beam scenario user_i sat_beam_i state))"

text \<open>The greedy solver of \<^verbatim>\<open>main\<close>: the final matrix and the solution.\<close>

definition solve :: "scenario \<Rightarrow> matrix \<Rightarrow> error + matrix \<times> solution" where
  "solve scenario v =
     (let num_users = length v
      in case py_get v 0 of
           Inl e \<Rightarrow> Inl e
         | Inr row0 \<Rightarrow>
             let num_sat_beam = length row0
             in fold_err (schedule_user scenario num_sat_beam) [0..<num_users] (v, []))"

text \<open>Matrix construction followed by the solver.\<close>

definition run_scenario :: "scenario \<Rightarrow> error + matrix \<times> solution" where
  "run_scenario scenario =
     (case generate_visibility_matrix scenario of
        Inl e \<Rightarrow> Inl e
      | Inr v \<Rightarrow> solve scenario v)"

text \<open>
  The assignment records \<open>(satellite, beam, user, color)\<close> in the order in which
  \<^verbatim>\<open>format_solution\<close> prints them.
\<close>

definition records_of :: "solution \<Rightarrow> (nat \<times> nat \<times> nat \<times> nat) list" where
  "records_of solution =
     concat (map (\<lambda>(sat_id, sat).
                    map (\<lambda>beam_i. (sat_id, beam_i + 1, fst (sat ! beam_i), snd (sat ! beam_i)))
                      [0..<length sat])
               solution)"

section \<open>Reading a scenario\<close>

text \<open>
  A scenario file is the list of its lines. \<^verbatim>\<open>needle in line\<close> is substring containment,
  \<^verbatim>\<open>line.split()\<close> cuts at runs of white space, \<^verbatim>\<open>line.strip() == ""\<close> holds of a line of
  white space only.
\<close>

fun contains :: "string \<Rightarrow> string \<Rightarrow> bool" where
  "contains needle [] = (needle = [])"
| "contains needle (c # cs) = (prefix needle (c # cs) \<or> contains needle cs)"

text \<open>
  The characters below 256 for which \<^verbatim>\<open>str.isspace\<close> holds: 9 to 13, 28 to 32, 133 and
  160. A character is its code point here, so white space beyond 255 is not covered.
\<close>

definition is_space :: "char \<Rightarrow> bool" where
  "is_space c =
     (let n = (of_char c :: nat)
      in (9 \<le> n \<and> n \<le> 13) \<or> (28 \<le> n \<and> n \<le> 32) \<or> n = 133 \<or> n = 160)"

fun split_ws :: "string \<Rightarrow> string \<Rightarrow> string list" where
  "split_ws cur [] = (if cur = [] then [] else [cur])"
| "split_ws cur (c # cs) =
     (if is_space c then (if cur = [] then split_ws [] cs else cur # split_ws [] cs)
      else split_ws (cur @ [c]) cs)"

definition py_split :: "string \<Rightarrow> string list" where
  "py_split line = split_ws [] line"

definition blank :: "string \<Rightarrow> bool" where
  "blank line = list_all is_space line"

text \<open>
  \<^verbatim>\<open>read_object(object_type, line, dest)\<close>. The conversion \<^verbatim>\<open>float\<close> of a coordinate token is
  the parameter \<open>float\<close>, \<open>None\<close> where the conversion raises. The result is \<open>Inr None\<close>
  where the source returns \<^verbatim>\<open>False\<close> (the dictionary is then untouched) and the updated
  dictionary where it returns \<^verbatim>\<open>True\<close>; \<^verbatim>\<open>parts[0]\<close> of a line without tokens raises.
\<close>

definition read_object ::
  "(string \<Rightarrow> real option) \<Rightarrow> string \<Rightarrow> string \<Rightarrow> objects \<Rightarrow> error + objects option" where
  "read_object float object_type line dest =
     (let parts = py_split line
      in case parts of
           [] \<Rightarrow> Inl IndexError
         | p0 # _ \<Rightarrow>
             if p0 \<noteq> object_type \<or> length parts \<noteq> 5 then Inr None
             else
               let ident = parts ! 1
               in (case float (parts ! 2) of
                     None \<Rightarrow> Inr None
                   | Some x \<Rightarrow>
                       (case float (parts ! 3) of
                          None \<Rightarrow> Inr None
                        | Some y \<Rightarrow>
                            (case float (parts ! 4) of
                               None \<Rightarrow> Inr None
                             | Some z \<Rightarrow> Inr (Some (AList.update ident (Vector3 x y z) dest))))))"

text \<open>The loop of \<^verbatim>\<open>read_scenario\<close> over the lines; \<open>Inr None\<close> is the result \<^verbatim>\<open>False\<close>.\<close>

fun read_lines ::
  "(string \<Rightarrow> real option) \<Rightarrow> string list \<Rightarrow> scenario \<Rightarrow> error + scenario option" where
  "read_lines float [] scenario = Inr (Some scenario)"
| "read_lines float (line # rest) scenario =
     (if contains ''#'' line then read_lines float rest scenario
      else if blank line then read_lines float rest scenario
      else if contains ''interferer'' line then
        (case read_object float ''interferer'' line (interferers scenario) of
           Inl e \<Rightarrow> Inl e
         | Inr None \<Rightarrow> Inr None
         | Inr (Some d) \<Rightarrow> read_lines float rest (scenario\<lparr>interferers := d\<rparr>))
      else if contains ''sat'' line then
        (case read_object float ''sat'' line (sats scenario) of
           Inl e \<Rightarrow> Inl e
         | Inr None \<Rightarrow> Inr None
         | Inr (Some d) \<Rightarrow> read_lines float rest (scenario\<lparr>sats := d\<rparr>))
      else if contains ''user'' line then
        (case read_object float ''user'' line (users scenario) of
           Inl e \<Rightarrow> Inl e
         | Inr None \<Rightarrow> Inr None
         | Inr (Some d) \<Rightarrow> read_lines float rest (scenario\<lparr>users := d\<rparr>))
      else Inr None)"

definition read_scenario ::
  "(string \<Rightarrow> real option) \<Rightarrow> string list \<Rightarrow> error + scenario option" where
  "read_scenario float scenariofile_lines =
     read_lines float scenariofile_lines \<lparr>sats = [], users = [], interferers = []\<rparr>"

text \<open>
  \<^verbatim>\<open>main\<close>, from the lines of the scenario file: the exit code and the assignment records
  handed to \<^verbatim>\<open>format_solution\<close>. A failed load returns \<open>-1\<close> before the matrix is built.
\<close>

definition main ::
  "(string \<Rightarrow> real option) \<Rightarrow> string list \<Rightarrow> error + int \<times> (nat \<times> nat \<times> nat \<times> nat) list" where
  "main float scenariofile_lines =
     (case read_scenario float scenariofile_lines of
        Inl e \<Rightarrow> Inl e
      | Inr None \<Rightarrow> Inr (- 1, [])
      | Inr (Some scenario) \<Rightarrow>
          (case run_scenario scenario of
             Inl e \<Rightarrow> Inl e
           | Inr state \<Rightarrow> Inr (0, records_of (snd state))))"

text \<open>
  A coordinate parser for concrete files: \<^verbatim>\<open>float\<close> on plain decimal numerals, an optional
  sign, digits and an optional fraction. The other forms that \<^verbatim>\<open>float\<close> accepts (exponents,
  \<^verbatim>\<open>inf\<close>, \<^verbatim>\<open>nan\<close>, underscores) have no counterpart here.
\<close>

definition dec_val :: "string \<Rightarrow> nat" where
  "dec_val ds = foldl (\<lambda>acc c. acc * 10 + digit_val c) 0 ds"

definition unsigned_decimal :: "string \<Rightarrow> real option" where
  "unsigned_decimal s =
     (let ip = takeWhile is_digit s; rest = dropWhile is_digit s
      in case rest of
           [] \<Rightarrow> if ip = [] then None else Some (real (dec_val ip))
         | c # fp \<Rightarrow>
             if c = CHR ''.'' \<and> list_all is_digit fp \<and> (ip \<noteq> [] \<or> fp \<noteq> [])
             then Some (real (dec_val ip) + real (dec_val fp) / 10 ^ length fp)
             else None)"

definition decimal_float :: "string \<Rightarrow> real option" where
  "decimal_float s =
     (case s of
        [] \<Rightarrow> None
      | c # rest \<Rightarrow>
          if c = CHR ''-'' then map_option uminus (unsigned_decimal rest)
          else if c = CHR ''+'' then unsigned_decimal rest
          else unsigned_decimal s)"

section \<open>Predicates used in the statements\<close>

text \<open>
  A line is skipped when it contains \<^verbatim>\<open>#\<close> or is blank. A line is well formed when it has
  five tokens, the first a known keyword and the last three accepted as coordinates.
\<close>

definition skipped :: "string \<Rightarrow> bool" where
  "skipped line = (contains ''#'' line \<or> blank line)"

definition well_formed :: "(string \<Rightarrow> real option) \<Rightarrow> string \<Rightarrow> bool" where
  "well_formed float line =
     (let parts = py_split line
      in length parts = 5 \<and> parts ! 0 \<in> {''sat'', ''user'', ''interferer''} \<and>
         float (parts ! 2) \<noteq> None \<and> float (parts ! 3) \<noteq> None \<and> float (parts ! 4) \<noteq> None)"

text \<open>
  The keyword tests of \<^verbatim>\<open>read_scenario\<close> look for \<^verbatim>\<open>interferer\<close>, then \<^verbatim>\<open>sat\<close>, then
  \<^verbatim>\<open>user\<close> anywhere in the line. A line reaches the reader of its own keyword when no
  keyword tested earlier occurs in it.
\<close>

definition dispatched :: "string \<Rightarrow> bool" where
  "dispatched line =
     (let keyword = py_split line ! 0
      in (keyword = ''sat'' \<longrightarrow> \<not> contains ''interferer'' line) \<and>
         (keyword = ''user'' \<longrightarrow> \<not> contains ''interferer'' line \<and> \<not> contains ''sat'' line))"

text \<open>
  The transitions of a cell allowed while the solver runs: a cell keeps its state, or
  leaves \<open>AVAILIBLE\<close> for another state. A matrix step keeps the shape and changes every
  cell by an allowed transition.
\<close>

definition cell_step :: "BeamState \<Rightarrow> BeamState \<Rightarrow> bool" where
  "cell_step a b = (b = a \<or> (a = AVAILIBLE \<and> b \<noteq> AVAILIBLE))"

definition matrix_step :: "matrix \<Rightarrow> matrix \<Rightarrow> bool" where
  "matrix_step v v' = list_all2 (list_all2 cell_step) v v'"

text \<open>
  Two users are separated at a satellite when the positions stored under the three ids
  exist and the angle at the satellite between the two users is computed and is at least
  \<open>self_interference_max\<close>.
\<close>

definition separated :: "scenario \<Rightarrow> nat \<Rightarrow> nat \<Rightarrow> nat \<Rightarrow> bool" where
  "separated scenario sat_id user_a user_b =
     (case dict_get (sats scenario) (str (int sat_id)) of
        Inl e \<Rightarrow> False
      | Inr sat_pos \<Rightarrow>
          (case dict_get (users scenario) (str (int user_a)) of
             Inl e \<Rightarrow> False
           | Inr pos_a \<Rightarrow>
               (case dict_get (users scenario) (str (int user_b)) of
                  Inl e \<Rightarrow> False
                | Inr pos_b \<Rightarrow>
                    (case calculate_angle_degrees sat_pos pos_a pos_b of
                       Inl e \<Rightarrow> False
                     | Inr angle \<Rightarrow> self_interference_max \<le> angle))))"

text \<open>The state of the solver after its first \<open>k\<close> iterations over the users.\<close>

definition solve_prefix :: "scenario \<Rightarrow> matrix \<Rightarrow> nat \<Rightarrow> error + matrix \<times> solution" where
  "solve_prefix scenario v k =
     (case py_get v 0 of
        Inl e \<Rightarrow> Inl e
      | Inr row0 \<Rightarrow> fold_err (schedule_user scenario (length row0)) [0..<k] (v, []))"

text \<open>
  The capacity invariant of the solver state: no satellite carries more than 32 beams, and
  no cell of a satellite that carries 32 beams is available. Satellite ids start at 1.
\<close>

definition capacity_inv :: "matrix \<times> solution \<Rightarrow> bool" where
  "capacity_inv state =
     (beams_of (snd state) 0 = [] \<and>
      (\<forall>s. length (beams_of (snd state) (Suc s)) \<le> 32 \<and>
           (length (beams_of (snd state) (Suc s)) = 32 \<longrightarrow>
              (\<forall>i < length (fst state). \<forall>j < length (fst state ! i).
                 s * 4 \<le> j \<and> j < s * 4 + 4 \<longrightarrow> fst state ! i ! j \<noteq> AVAILIBLE))))"

text \<open>The records that \<^verbatim>\<open>format_solution\<close> prints for one satellite.\<close>

definition records_for :: "nat \<Rightarrow> (nat \<times> nat) list \<Rightarrow> (nat \<times> nat \<times> nat \<times> nat) list" where
  "records_for sat_id sat =
     map (\<lambda>beam_i. (sat_id, beam_i + 1, fst (sat ! beam_i), snd (sat ! beam_i))) [0..<length sat]"

text \<open>
  The separation invariant of the solver state, for the beams of every satellite: a row
  whose cell of the beam's colour is still available belongs to a user separated from the
  beam's user, and two beams of one colour have separated users.
\<close>

definition separation_inv :: "scenario \<Rightarrow> matrix \<times> solution \<Rightarrow> bool" where
  "separation_inv scenario state =
     (\<forall>s. \<forall>a < length (beams_of (snd state) (Suc s)).
        (\<forall>i < length (fst state).
           s * 4 + snd (beams_of (snd state) (Suc s) ! a) < length (fst state ! i) \<and>
           fst state ! i ! (s * 4 + snd (beams_of (snd state) (Suc s) ! a)) = AVAILIBLE \<longrightarrow>
           separated scenario (Suc s) (fst (beams_of (snd state) (Suc s) ! a)) (Suc i)) \<and>
        (\<forall>b < length (beams_of (snd state) (Suc s)).
           a < b \<and> snd (beams_of (snd state) (Suc s) ! a) = snd (beams_of (snd state) (Suc s) ! b) \<longrightarrow>
           separated scenario (Suc s) (fst (beams_of (snd state) (Suc s) ! a))
             (fst (beams_of (snd state) (Suc s) ! b))))"

section \<open>Example scenarios\<close>

text \<open>One satellite and two users on either side below it.\<close>

definition two_users :: scenario where
  "two_users = \<lparr>sats = [(''1'', Vector3 0 0 48)],
                 users = [(''1'', Vector3 7 0 24), (''2'', Vector3 (- 7) 0 24)],
                 interferers = []\<rparr>"

text \<open>The transitions of a cell while the matrix is built: it keeps its state or becomes
  available.\<close>

definition build_step :: "BeamState \<Rightarrow> BeamState \<Rightarrow> bool" where
  "build_step a b = (b = a \<or> b = AVAILIBLE)"

definition initial_matrix :: "scenario \<Rightarrow> matrix" where
  "initial_matrix scenario =
     replicate (length (users scenario))
       (replicate (length (sats scenario) * colors_per_satellite) UNAVAILIBLE)"

definition build_rel :: "matrix \<Rightarrow> matrix \<Rightarrow> bool" where
  "build_rel v v' = list_all2 (list_all2 build_step) v v'"


text \<open>
  A matrix and a scenario on which the solver cannot fail: the matrix has a row, every row
  has the columns of \<open>m\<close> satellites, and the positions of user \<open>i + 1\<close> and of satellite
  \<open>s + 1\<close> are stored, for every row \<open>i\<close> and every \<open>s < m\<close>, and differ (the angle at the
  satellite towards the user is then defined).
\<close>

definition solver_ready :: "scenario \<Rightarrow> nat \<Rightarrow> matrix \<Rightarrow> bool" where
  "solver_ready scenario m v =
     (v \<noteq> [] \<and> (\<forall>row \<in> set v. length row = m * colors_per_satellite) \<and>
      (\<forall>i < length v. \<forall>s < m.
         \<exists>user_pos sat_pos.
           dict_get (users scenario) (str (int i + 1)) = Inr user_pos \<and>
           dict_get (sats scenario) (str (int s + 1)) = Inr sat_pos \<and> user_pos \<noteq> sat_pos))"

text \<open>
  A scenario that saturates its one satellite: 33 users around the satellite, four at each
  of eight directions and one at a ninth; any two of the nine directions are more than
  10 degrees apart. In the matrix \<open>crowd_matrix\<close> user \<open>i\<close> (row \<open>i - 1\<close>) may use the colour
  \<open>(i - 1) mod 4\<close> only.
\<close>

definition crowd_pos :: "nat \<Rightarrow> Vector3" where
  "crowd_pos g = [Vector3 5 0 0, Vector3 0 5 0, Vector3 0 0 5, Vector3 (- 5) 0 0,
                  Vector3 0 (- 5) 0, Vector3 0 0 (- 5), Vector3 3 4 0, Vector3 (- 3) (- 4) 0,
                  Vector3 0 3 4] ! g"

definition crowd :: scenario where
  "crowd = \<lparr>sats = [(''1'', Vector3 0 0 0)],
     users = [
        (''1'', Vector3 5 0 0), (''2'', Vector3 5 0 0), (''3'', Vector3 5 0 0),
        (''4'', Vector3 5 0 0), (''5'', Vector3 0 5 0), (''6'', Vector3 0 5 0),
        (''7'', Vector3 0 5 0), (''8'', Vector3 0 5 0), (''9'', Vector3 0 0 5),
        (''10'', Vector3 0 0 5), (''11'', Vector3 0 0 5), (''12'', Vector3 0 0 5),
        (''13'', Vector3 (- 5) 0 0), (''14'', Vector3 (- 5) 0 0), (''15'', Vector3 (- 5) 0 0),
        (''16'', Vector3 (- 5) 0 0), (''17'', Vector3 0 (- 5) 0), (''18'', Vector3 0 (- 5) 0),
        (''19'', Vector3 0 (- 5) 0), (''20'', Vector3 0 (- 5) 0), (''21'', Vector3 0 0 (- 5)),
        (''22'', Vector3 0 0 (- 5)), (''23'', Vector3 0 0 (- 5)), (''24'', Vector3 0 0 (- 5)),
        (''25'', Vector3 3 4 0), (''26'', Vector3 3 4 0), (''27'', Vector3 3 4 0),
        (''28'', Vector3 3 4 0), (''29'', Vector3 (- 3) (- 4) 0),
        (''30'', Vector3 (- 3) (- 4) 0), (''31'', Vector3 (- 3) (- 4) 0),
        (''32'', Vector3 (- 3) (- 4) 0), (''33'', Vector3 0 3 4)],
     interferers = []\<rparr>"

text \<open>
  The state of the solver on \<open>crowd\<close> after \<open>k\<close> iterations: the first \<open>k\<close> users hold a
  beam of their colour, and after the 32nd beam no cell is available.
\<close>

definition crowd_cell :: "nat \<Rightarrow> nat \<Rightarrow> BeamState" where
  "crowd_cell k u = (if u < k then IN_USE else if k = 32 then UNAVAILIBLE else AVAILIBLE)"

definition crowd_state :: "nat \<Rightarrow> matrix" where
  "crowd_state k = map (\<lambda>u. (replicate 4 UNAVAILIBLE)[u mod 4 := crowd_cell k u]) [0..<33]"

definition crowd_sol :: "nat \<Rightarrow> solution" where
  "crowd_sol k = (if k = 0 then [] else [(1, map (\<lambda>i. (i + 1, i mod 4)) [0..<k])])"

text \<open>The matrix given to the solver, the matrix it ends with and its solution.\<close>

definition crowd_matrix :: matrix where
  "crowd_matrix = [
    [AVAILIBLE, UNAVAILIBLE, UNAVAILIBLE, UNAVAILIBLE],
    [UNAVAILIBLE, AVAILIBLE, UNAVAILIBLE, UNAVAILIBLE],
    [UNAVAILIBLE, UNAVAILIBLE, AVAILIBLE, UNAVAILIBLE],
    [UNAVAILIBLE, UNAVAILIBLE, UNAVAILIBLE, AVAILIBLE],
    [AVAILIBLE, UNAVAILIBLE, UNAVAILIBLE, UNAVAILIBLE],
    [UNAVAILIBLE, AVAILIBLE, UNAVAILIBLE, UNAVAILIBLE],
    [UNAVAILIBLE, UNAVAILIBLE, AVAILIBLE, UNAVAILIBLE],
    [UNAVAILIBLE, UNAVAILIBLE, UNAVAILIBLE, AVAILIBLE],
    [AVAILIBLE, UNAVAILIBLE, UNAVAILIBLE, UNAVAILIBLE],
    [UNAVAILIBLE, AVAILIBLE, UNAVAILIBLE, UNAVAILIBLE],
    [UNAVAILIBLE, UNAVAILIBLE, AVAILIBLE, UNAVAILIBLE],
    [UNAVAILIBLE, UNAVAILIBLE, UNAVAILIBLE, AVAILIBLE],
    [AVAILIBLE, UNAVAILIBLE, UNAVAILIBLE, UNAVAILIBLE],
    [UNAVAILIBLE, AVAILIBLE, UNAVAILIBLE, UNAVAILIBLE],
    [UNAVAILIBLE, UNAVAILIBLE, AVAILIBLE, UNAVAILIBLE],
    [UNAVAILIBLE, UNAVAILIBLE, UNAVAILIBLE, AVAILIBLE],
    [AVAILIBLE, UNAVAILIBLE, UNAVAILIBLE, UNAVAILIBLE],
    [UNAVAILIBLE, AVAILIBLE, UNAVAILIBLE, UNAVAILIBLE],
    [UNAVAILIBLE, UNAVAILIBLE, AVAILIBLE, UNAVAILIBLE],
    [UNAVAILIBLE, UNAVAILIBLE, UNAVAILIBLE, AVAILIBLE],
    [AVAILIBLE, UNAVAILIBLE, UNAVAILIBLE, UNAVAILIBLE],
    [UNAVAILIBLE, AVAILIBLE, UNAVAILIBLE, UNAVAILIBLE],
    [UNAVAILIBLE, UNAVAILIBLE, AVAILIBLE, UNAVAILIBLE],
    [UNAVAILIBLE, UNAVAILIBLE, UNAVAILIBLE, AVAILIBLE],
    [AVAILIBLE, UNAVAILIBLE, UNAVAILIBLE, UNAVAILIBLE],
    [UNAVAILIBLE, AVAILIBLE, UNAVAILIBLE, UNAVAILIBLE],
    [UNAVAILIBLE, UNAVAILIBLE, AVAILIBLE, UNAVAILIBLE],
    [UNAVAILIBLE, UNAVAILIBLE, UNAVAILIBLE, AVAILIBLE],
    [AVAILIBLE, UNAVAILIBLE, UNAVAILIBLE, UNAVAILIBLE],
    [UNAVAILIBLE, AVAILIBLE, UNAVAILIBLE, UNAVAILIBLE],
    [UNAVAILIBLE, UNAVAILIBLE, AVAILIBLE, UNAVAILIBLE],
    [UNAVAILIBLE, UNAVAILIBLE, UNAVAILIBLE, AVAILIBLE],
    [AVAILIBLE, UNAVAILIBLE, UNAVAILIBLE, UNAVAILIBLE]]"

definition crowd_final :: matrix where
  "crowd_final = [
    [IN_USE, UNAVAILIBLE, UNAVAILIBLE, UNAVAILIBLE],
    [UNAVAILIBLE, IN_USE, UNAVAILIBLE, UNAVAILIBLE],
    [UNAVAILIBLE, UNAVAILIBLE, IN_USE, UNAVAILIBLE],
    [UNAVAILIBLE, UNAVAILIBLE, UNAVAILIBLE, IN_USE],
    [IN_USE, UNAVAILIBLE, UNAVAILIBLE, UNAVAILIBLE],
    [UNAVAILIBLE, IN_USE, UNAVAILIBLE, UNAVAILIBLE],
    [UNAVAILIBLE, UNAVAILIBLE, IN_USE, UNAVAILIBLE],
    [UNAVAILIBLE, UNAVAILIBLE, UNAVAILIBLE, IN_USE],
    [IN_USE, UNAVAILIBLE, UNAVAILIBLE, UNAVAILIBLE],
    [UNAVAILIBLE, IN_USE, UNAVAILIBLE, UNAVAILIBLE],
    [UNAVAILIBLE, UNAVAILIBLE, IN_USE, UNAVAILIBLE],
    [UNAVAILIBLE, UNAVAILIBLE, UNAVAILIBLE, IN_USE],
    [IN_USE, UNAVAILIBLE, UNAVAILIBLE, UNAVAILIBLE],
    [UNAVAILIBLE, IN_USE, UNAVAILIBLE, UNAVAILIBLE],
    [UNAVAILIBLE, UNAVAILIBLE, IN_USE, UNAVAILIBLE],
    [UNAVAILIBLE, UNAVAILIBLE, UNAVAILIBLE, IN_USE],
    [IN_USE, UNAVAILIBLE, UNAVAILIBLE, UNAVAILIBLE],
    [UNAVAILIBLE, IN_USE, UNAVAILIBLE, UNAVAILIBLE],
    [UNAVAILIBLE, UNAVAILIBLE, IN_USE, UNAVAILIBLE],
    [UNAVAILIBLE, UNAVAILIBLE, UNAVAILIBLE, IN_USE],
    [IN_USE, UNAVAILIBLE, UNAVAILIBLE, UNAVAILIBLE],
    [UNAVAILIBLE, IN_USE, UNAVAILIBLE, UNAVAILIBLE],
    [UNAVAILIBLE, UNAVAILIBLE, IN_USE, UNAVAILIBLE],
    [UNAVAILIBLE, UNAVAILIBLE, UNAVAILIBLE, IN_USE],
    [IN_USE, UNAVAILIBLE, UNAVAILIBLE, UNAVAILIBLE],
    [UNAVAILIBLE, IN_USE, UNAVAILIBLE, UNAVAILIBLE],
    [UNAVAILIBLE, UNAVAILIBLE, IN_USE, UNAVAILIBLE],
    [UNAVAILIBLE, UNAVAILIBLE, UNAVAILIBLE, IN_USE],
    [IN_USE, UNAVAILIBLE, UNAVAILIBLE, UNAVAILIBLE],
    [UNAVAILIBLE, IN_USE, UNAVAILIBLE, UNAVAILIBLE],
    [UNAVAILIBLE, UNAVAILIBLE, IN_USE, UNAVAILIBLE],
    [UNAVAILIBLE, UNAVAILIBLE, UNAVAILIBLE, IN_USE],
    [UNAVAILIBLE, UNAVAILIBLE, UNAVAILIBLE, UNAVAILIBLE]]"

definition crowd_solution :: solution where
  "crowd_solution =
     [(1, [(1, 0), (2, 1), (3, 2), (4, 3), (5, 0), (6, 1), (7, 2), (8, 3), (9, 0), (10, 1),
       (11, 2), (12, 3), (13, 0), (14, 1), (15, 2), (16, 3), (17, 0), (18, 1), (19, 2),
       (20, 3), (21, 0), (22, 1), (23, 2), (24, 3), (25, 0), (26, 1), (27, 2), (28, 3),
       (29, 0), (30, 1), (31, 2), (32, 3)])]"

section \<open>Properties of the geometry\<close>

lemma mag_zero_iff:
  "sqrt ((vx a - vx v)\<^sup>2 + (vy a - vy v)\<^sup>2 + (vz a - vz v)\<^sup>2) = 0 \<longleftrightarrow> a = v"
proof -
  have "(vx a - vx v)\<^sup>2 + (vy a - vy v)\<^sup>2 + (vz a - vz v)\<^sup>2 = 0
        \<longleftrightarrow> vx a = vx v \<and> vy a = vy v \<and> vz a = vz v"
    by (simp add: add_nonneg_eq_0_iff)
  then show ?thesis
    by (auto intro: Vector3.expand)
qed

lemma calculate_angle_degrees_fails_iff:
  "(\<exists>e. calculate_angle_degrees v a b = Inl e) \<longleftrightarrow> a = v \<or> b = v"
  unfolding calculate_angle_degrees_def Let_def Vector3.sel
  by (simp only: mag_zero_iff) auto



section \<open>Loading is all or nothing\<close>

lemmas parse_defs = read_scenario_def read_object_def py_split_def is_space_def blank_def
   decimal_float_def unsigned_decimal_def is_digit_def dec_val_def digit_val_def

lemma split_ws_Nil_iff: "split_ws cur s = [] \<longleftrightarrow> cur = [] \<and> list_all is_space s"
  by (induction cur s rule: split_ws.induct) auto

lemma py_split_Nil_iff: "py_split line = [] \<longleftrightarrow> blank line"
  by (simp add: py_split_def blank_def split_ws_Nil_iff)

lemma read_object_no_error: "\<not> blank line \<Longrightarrow> read_object float t line d \<noteq> Inl e"
  by (auto simp: read_object_def Let_def py_split_Nil_iff[symmetric] split: list.splits option.splits)

lemma read_object_Some_iff:
  "read_object float t line d = Inr (Some d') \<longleftrightarrow>
     (let parts = py_split line in length parts = 5 \<and> parts ! 0 = t \<and>
        (\<exists>x y z. float (parts ! 2) = Some x \<and> float (parts ! 3) = Some y \<and> float (parts ! 4) = Some z
           \<and> d' = AList.update (parts ! 1) (Vector3 x y z) d))"
  by (auto simp: read_object_def Let_def split: list.splits option.splits)

lemma read_object_success_wf:
  "read_object float t line d = Inr (Some d') \<Longrightarrow> t \<in> {''sat'', ''user'', ''interferer''} \<Longrightarrow> well_formed float line"
  by (auto simp: read_object_Some_iff well_formed_def Let_def)

lemma read_lines_malformed:
  "\<exists>line \<in> set lines. \<not> skipped line \<and> \<not> well_formed float line \<Longrightarrow> read_lines float lines sc = Inr None"
proof (induction lines arbitrary: sc)
  case Nil
  then show ?case by simp
next
  case (Cons line rest)
  show ?case
  proof (cases "skipped line")
    case True
    then have "\<exists>l \<in> set rest. \<not> skipped l \<and> \<not> well_formed float l" using Cons.prems by auto
    then have "read_lines float rest sc = Inr None" by (rule Cons.IH)
    then show ?thesis using True by (auto simp: skipped_def)
  next
    case False
    then have nb: "\<not> blank line" and nc: "\<not> contains ''#'' line" by (auto simp: skipped_def)
    show ?thesis
    proof (cases "well_formed float line")
      case False
      have "\<And>t d d'. t \<in> {''sat'', ''user'', ''interferer''} \<Longrightarrow> read_object float t line d \<noteq> Inr (Some d')"
        using False read_object_success_wf by blast
      then have "\<And>t d. t \<in> {''sat'', ''user'', ''interferer''} \<Longrightarrow> read_object float t line d = Inr None"
        using read_object_no_error[OF nb] by (metis option.exhaust sum.exhaust_sel sum.collapse(2) old.sum.exhaust)
      then show ?thesis using nb nc by simp
    next
      case True
      then have ex: "\<exists>l \<in> set rest. \<not> skipped l \<and> \<not> well_formed float l" using Cons.prems by auto
      have ih: "\<And>sc'. read_lines float rest sc' = Inr None" using Cons.IH[OF ex] .
      show ?thesis using nb nc read_object_no_error[OF nb]
        by (auto simp: ih split: sum.splits option.splits)
    qed
  qed
qed

lemma contains_sublist: "contains needle hay \<longleftrightarrow> sublist needle hay"
  by (induction hay) (auto simp: sublist_Cons_right)

lemma split_ws_sublist: "t \<in> set (split_ws cur s) \<Longrightarrow> sublist t (cur @ s)"
proof (induction cur s rule: split_ws.induct)
  case (1 cur)
  then show ?case by (auto split: if_splits)
next
  case (2 cur c cs)
  show ?case
  proof (cases "is_space c")
    case sp: True
    show ?thesis
    proof (cases "cur = []")
      case True
      with sp 2 have "sublist t cs" by auto
      then show ?thesis using True by (simp add: sublist_Cons_right)
    next
      case False
      with sp 2 have "t = cur \<or> sublist t cs" by auto
      then show ?thesis
      proof
        assume "t = cur" then show ?thesis by simp
      next
        assume "sublist t cs"
        then have "sublist t (c # cs)" by (simp add: sublist_Cons_right)
        then obtain ps ss where "c # cs = ps @ t @ ss" by (auto simp: sublist_def)
        then have "cur @ c # cs = (cur @ ps) @ t @ ss" by simp
        then show ?thesis unfolding sublist_def by blast
      qed
    qed
  next
    case False
    with 2 show ?thesis by auto
  qed
qed

lemma token_contained: "t \<in> set (py_split line) \<Longrightarrow> contains t line"
  using split_ws_sublist[of t "[]" line] by (simp add: py_split_def contains_sublist)

lemma read_lines_well_formed:
  "\<forall>line \<in> set lines. skipped line \<or> (well_formed float line \<and> dispatched line) \<Longrightarrow> \<exists>sc'. read_lines float lines sc = Inr (Some sc')"
proof (induction lines arbitrary: sc)
  case Nil
  then show ?case by simp
next
  case (Cons line rest)
  have ih: "\<And>sc'. \<exists>sc''. read_lines float rest sc' = Inr (Some sc'')"
    using Cons by simp
  show ?case
  proof (cases "skipped line")
    case True
    then show ?thesis using ih by (auto simp: skipped_def)
  next
    case False
    then have nb: "\<not> blank line" and nc: "\<not> contains ''#'' line" by (auto simp: skipped_def)
    from False have wf: "well_formed float line" and dp: "dispatched line" using Cons.prems by auto
    from wf obtain x y z where p: "length (py_split line) = 5" "py_split line ! 0 \<in> {''sat'', ''user'', ''interferer''}"
       "float (py_split line ! 2) = Some x" "float (py_split line ! 3) = Some y" "float (py_split line ! 4) = Some z"
      by (auto simp: well_formed_def Let_def)
    have ro: "\<And>d. read_object float (py_split line ! 0) line d = Inr (Some (AList.update (py_split line ! 1) (Vector3 x y z) d))"
      using p by (simp add: read_object_Some_iff Let_def)
    have "py_split line ! 0 \<in> set (py_split line)" using p(1) by (intro nth_mem) simp
    then have kw: "contains (py_split line ! 0) line" by (rule token_contained)
    consider "py_split line ! 0 = ''interferer''" | "py_split line ! 0 = ''sat''" | "py_split line ! 0 = ''user''"
      using p(2) by auto
    then show ?thesis
    proof cases
      case 1
      then show ?thesis using nb nc kw ro[of "interferers sc"] ih by simp
    next
      case 2
      then have "\<not> contains ''interferer'' line" using dp by (simp add: dispatched_def)
      then show ?thesis using 2 nb nc kw ro[of "sats sc"] ih by simp
    next
      case 3
      then have "\<not> contains ''interferer'' line" "\<not> contains ''sat'' line" using dp by (simp_all add: dispatched_def)
      then show ?thesis using 3 nb nc kw ro[of "users sc"] ih by simp
    qed
  qed
qed

text \<open>
  What holds of the loader for every coordinate parser: a file with a line that is neither
  skipped nor well formed fails to load, whatever follows that line, and \<^verbatim>\<open>main\<close> then
  returns -1 without building a matrix or an assignment; a file whose lines are all skipped
  or well formed loads when each well-formed line reaches the reader of its own keyword.
\<close>

lemma load_all_or_nothing:
  "((\<exists>line \<in> set lines. \<not> skipped line \<and> \<not> well_formed float line) \<longrightarrow>
      read_scenario float lines = Inr None \<and> main float lines = Inr (- 1, [])) \<and>
   ((\<forall>line \<in> set lines. skipped line \<or> (well_formed float line \<and> dispatched line)) \<longrightarrow>
      (\<exists>scenario. read_scenario float lines = Inr (Some scenario)))"
  using read_lines_malformed[of lines float] read_lines_well_formed[of lines float]
  by (simp add: read_scenario_def main_def)

lemma load_examples:
  "read_scenario decimal_float [''sat 1 0 0 42164'', ''usr 1 0 0 6371''] = Inr None \<and>
   main decimal_float [''sat 1 0 0 42164'', ''usr 1 0 0 6371''] = Inr (- 1, []) \<and>
   (\<exists>scenario. read_scenario decimal_float [''# one of each'', ''sat 1 0 0 42164'',
        ''user 1 0 0 6371'', [], ''interferer 1 0 0 -42164.5'']
      = Inr (Some scenario))"
  using load_all_or_nothing[of "[''sat 1 0 0 42164'', ''usr 1 0 0 6371'']" decimal_float]
        load_all_or_nothing[of "[''# one of each'', ''sat 1 0 0 42164'',
        ''user 1 0 0 6371'', [], ''interferer 1 0 0 -42164.5'']" decimal_float]
  by (simp add: well_formed_def skipped_def dispatched_def py_split_def is_space_def blank_def
        decimal_float_def unsigned_decimal_def is_digit_def dec_val_def digit_val_def)

text \<open>
  The reader of user lines accepts the line \<^verbatim>\<open>user sat 0 0 0\<close>: \<^verbatim>\<open>read_object\<close> compares
  the first token with the keyword.
\<close>

lemma user_reader_accepts:
  "read_object decimal_float ''user'' ''user sat 0 0 0'' [] = Inr (Some [(''sat'', Vector3 0 0 0)])"
  by (simp add: parse_defs)

text \<open>
  Claim C8. The claim fails on the code at the file with the one line
  \<^verbatim>\<open>user sat 0 0 0\<close>: the line has five tokens, the keyword \<^verbatim>\<open>user\<close> and numeric
  coordinates, and is neither a comment nor blank, yet the load fails and \<^verbatim>\<open>main\<close> returns
  -1. \<^verbatim>\<open>read_scenario\<close> looks for \<^verbatim>\<open>sat\<close> anywhere in the line before it looks for
  \<^verbatim>\<open>user\<close> and hands the line to the satellite reader, which compares the first token
  and refuses it; the reader of user lines would accept it (\<open>user_reader_accepts\<close>). The
  line \<^verbatim>\<open>interferer sat 0 0 0\<close>, with the same id, loads.
\<close>

theorem well_formed_line_rejected:
  "well_formed decimal_float ''user sat 0 0 0'' \<and> \<not> skipped ''user sat 0 0 0'' \<and>
   read_scenario decimal_float [''user sat 0 0 0''] = Inr None \<and>
   main decimal_float [''user sat 0 0 0''] = Inr (- 1, []) \<and>
   read_scenario decimal_float [''interferer sat 0 0 0'']
     = Inr (Some \<lparr>sats = [], users = [], interferers = [(''sat'', Vector3 0 0 0)]\<rparr>)"
  by (simp add: parse_defs main_def well_formed_def skipped_def)

section \<open>Boundary scenarios and the identifiers\<close>

lemma fold_err_id: "(\<And>x. x \<in> set xs \<Longrightarrow> f x s = Inr s) \<Longrightarrow> fold_err f xs s = Inr s"
  by (induction xs) auto

lemma py_norm_index_nat: "py_norm_index n (int i) = (if i < n then Inr i else Inl IndexError)"
  by (simp add: py_norm_index_def)

lemma py_get_nat: "py_get xs (int i) = (if i < length xs then Inr (xs ! i) else Inl IndexError)"
  by (simp add: py_get_def py_norm_index_nat)

lemma py_get_0: "py_get xs 0 = (case xs of [] \<Rightarrow> Inl IndexError | x # _ \<Rightarrow> Inr x)"
  using py_get_nat[of xs 0] by (cases xs) auto

lemma zero_users_raises: "users sc = [] \<Longrightarrow> run_scenario sc = Inl IndexError"
  by (simp add: run_scenario_def generate_visibility_matrix_def solve_def py_get_0)

lemma zero_sats_empty:
  assumes "sats sc = []" "users sc \<noteq> []"
  shows "run_scenario sc = Inr (replicate (length (users sc)) [], [])"
proof -
  let ?v = "replicate (length (users sc)) ([] :: BeamState list)"
  have g: "generate_visibility_matrix sc = Inr ?v"
    using assms(1) by (simp add: generate_visibility_matrix_def fold_err_id)
  have "fold_err (schedule_user sc 0) [0..<length ?v] (?v, []) = Inr (?v, [])"
    by (rule fold_err_id) (simp add: schedule_user_def py_get_nat)
  moreover have "py_get ?v 0 = Inr []"
    using assms(2) by (cases "users sc") (simp_all add: py_get_0)
  ultimately show ?thesis
    by (simp add: run_scenario_def g solve_def)
qed

lemmas run_defs = run_scenario_def generate_visibility_matrix_def solve_def visit_pair_def
  mark_available_def set_cell_def py_norm_index_def py_set_def py_get_def schedule_user_def
  assign_beam_def beams_of_def update_visibility_def set_user_beam_def dict_get_def
  for_rows_def update_row_def mark_full_row_def mark_full_cell_def
  colors_per_satellite_def beams_per_satellite_def max_user_visible_angle_def
  self_interference_max_def non_starlink_interference_max_def Let_def main_def records_of_def

lemma str_small: "str 1 = ''1''" "str 2 = ''2''" "str 3 = ''3''"
  by code_simp+

lemma py_int_small: "py_int ''1'' = Inr 1" "py_int ''2'' = Inr 2" "py_int ''01'' = Inr 1"
  by code_simp+

lemma overhead_angle: "calculate_angle_degrees (Vector3 0 0 6371) origin (Vector3 0 0 42164) = Inr 180"
  by (simp add: calculate_angle_degrees_def origin_def Let_def degrees_def)

lemma upt4: "[0..<1] = [0]" "[0..<2] = [0, 1]" "[0..<3] = [0, 1, 2]" "[0..<4] = [0, 1, 2, 3]"
  "[0..<8] = [0, 1, 2, 3, 4, 5, 6, 7]"
  by code_simp+

text \<open>
  Claim C5. With no satellite and at least one user the run ends with an empty solution
  (lemma \<open>zero_sats_empty\<close>). With no user the matrix is the empty list and
  \<^verbatim>\<open>num_sat_beam = len(v[0])\<close> raises \<^verbatim>\<open>IndexError\<close>, here on a file with one satellite
  and no user.
\<close>

theorem zero_users_index_error:
  "main decimal_float [''sat 1 0 0 42164''] = Inl IndexError"
  by (simp add: parse_defs main_def zero_users_raises)


text \<open>The example of the specification: one satellite, one user below it.\<close>

lemma overhead_example:
  "main decimal_float [''sat 1 0 0 42164'', ''user 1 0 0 6371''] = Inr (0, [(1, 1, 1, 0)])"
  by (simp add: parse_defs run_defs overhead_angle py_int_small str_small upt4)

section \<open>Loops over rows and cells\<close>

lemma fold_err_append:
  "fold_err f (xs @ ys) s = (case fold_err f xs s of Inl e \<Rightarrow> Inl e | Inr s' \<Rightarrow> fold_err f ys s')"
  by (induction xs arbitrary: s) (auto split: sum.splits)

lemma fold_err_upt_inv:
  assumes "fold_err f [0..<n] s = Inr s'" and "P 0 s"
    and step: "\<And>i t t'. i < n \<Longrightarrow> P i t \<Longrightarrow> f i t = Inr t' \<Longrightarrow> P (Suc i) t'"
  shows "P n s'"
  using assms(1) step
proof (induction n arbitrary: s')
  case 0
  then show ?case using assms(2) by simp
next
  case (Suc n)
  from Suc.prems(1) obtain t where t: "fold_err f [0..<n] s = Inr t" and ft: "f n t = Inr s'"
    by (auto simp: fold_err_append split: sum.splits)
  have "P n t" using Suc.IH[OF t] Suc.prems(2) by simp
  then show ?case using Suc.prems(2)[of n t s'] ft by simp
qed

lemma fold_err_rel:
  assumes "fold_err f xs s = Inr s'"
    and "\<And>x t t'. x \<in> set xs \<Longrightarrow> f x t = Inr t' \<Longrightarrow> R t t'"
    and "\<And>t. R t t" and "\<And>a b c. R a b \<Longrightarrow> R b c \<Longrightarrow> R a c"
  shows "R s s'"
  using assms(1,2)
proof (induction xs arbitrary: s)
  case Nil
  then show ?case using assms(3) by simp
next
  case (Cons x xs)
  from Cons.prems(1) obtain t where t: "f x s = Inr t" and r: "fold_err f xs t = Inr s'"
    by (auto split: sum.splits)
  have "R s t" using Cons.prems(2)[of x s t] t by simp
  moreover have "R t s'"
  proof (rule Cons.IH[OF r])
    fix y u u' assume "y \<in> set xs" "f y u = Inr u'"
    then show "R u u'" using Cons.prems(2)[of y u u'] by simp
  qed
  ultimately show ?case using assms(4) by blast
qed

lemma for_rows_spec:
  assumes "for_rows body v = Inr v'"
  shows "length v' = length v \<and> (\<forall>i < length v. body i (v ! i) = Inr (v' ! i))"
proof -
  let ?f = "\<lambda>user_i w. case body user_i (w ! user_i) of Inl e \<Rightarrow> Inl e | Inr user \<Rightarrow> Inr (w[user_i := user])"
  let ?P = "\<lambda>k w. length w = length v \<and> (\<forall>i < k. body i (v ! i) = Inr (w ! i)) \<and>
                   (\<forall>i. k \<le> i \<longrightarrow> w ! i = v ! i)"
  have "?P (length v) v'"
  proof (rule fold_err_upt_inv[where f = ?f and P = ?P and s = v])
    show "fold_err ?f [0..<length v] v = Inr v'" using assms by (simp add: for_rows_def)
    show "?P 0 v" by simp
  next
    fix i t t' assume i: "i < length v" and P: "?P i t" and f: "?f i t = Inr t'"
    from f obtain r where r: "body i (t ! i) = Inr r" and t': "t' = t[i := r]"
      by (auto split: sum.splits)
    have ti: "t ! i = v ! i" using P by simp
    show "?P (Suc i) t'"
    proof (intro conjI allI impI)
      show "length t' = length v" using P t' by simp
    next
      fix j assume "j < Suc i"
      then show "body j (v ! j) = Inr (t' ! j)"
        using P r ti t' i by (cases "j = i") (auto simp: less_Suc_eq)
    next
      fix j assume "Suc i \<le> j"
      then show "t' ! j = v ! j" using P t' by simp
    qed
  qed
  then show ?thesis by simp
qed

lemma py_set_nat: "py_set xs (int i) x = (if i < length xs then Inr (xs[i := x]) else Inl IndexError)"
  by (simp add: py_set_def py_norm_index_nat)

lemma mark_full_cell_nat:
  "mark_full_cell (int k) row =
     (if k < length row then Inr (if row ! k = AVAILIBLE then row[k := UNAVAILIBLE] else row)
      else Inl IndexError)"
  by (simp add: mark_full_cell_def py_get_nat py_set_nat)

lemma colors_upt: "[0..<colors_per_satellite] = [0, 1, 2, 3]"
  unfolding colors_per_satellite_def by code_simp

lemma mark_cells_spec:
  "fold_err mark_full_cell (map (\<lambda>k. int b + int k) [0..<n]) row = Inr row' \<Longrightarrow>
     (0 < n \<longrightarrow> b + n \<le> length row) \<and> length row' = length row \<and>
     (\<forall>j < length row. row' ! j = (if b \<le> j \<and> j < b + n \<and> row ! j = AVAILIBLE then UNAVAILIBLE else row ! j))"
proof (induction n arbitrary: row')
  case 0
  then show ?case by simp
next
  case (Suc n)
  have e: "int b + int n = int (b + n)" by simp
  from Suc.prems obtain r where r: "fold_err mark_full_cell (map (\<lambda>k. int b + int k) [0..<n]) row = Inr r"
    and m: "mark_full_cell (int (b + n)) r = Inr row'"
    by (auto simp: fold_err_append e simp del: of_nat_add split: sum.splits)
  note ih = Suc.IH[OF r]
  from m have bn: "b + n < length r" and row': "row' = (if r ! (b + n) = AVAILIBLE then r[b + n := UNAVAILIBLE] else r)"
    by (auto simp: mark_full_cell_nat simp del: of_nat_add split: if_splits)
  show ?case
  proof (intro conjI allI impI)
    show "b + Suc n \<le> length row" using bn ih by simp
    show "length row' = length row" using row' ih by simp
  next
    fix j assume j: "j < length row"
    show "row' ! j = (if b \<le> j \<and> j < b + Suc n \<and> row ! j = AVAILIBLE then UNAVAILIBLE else row ! j)"
    proof (cases "j = b + n")
      case True
      then show ?thesis using row' ih bn j by (auto simp: nth_list_update)
    next
      case False
      then have "row' ! j = r ! j" using row' by (auto simp: nth_list_update)
      then show ?thesis using ih j False by (auto simp: less_Suc_eq)
    qed
  qed
qed

lemma mark_full_row_spec:
  assumes "mark_full_row (int b) row = Inr row'"
  shows "b + 4 \<le> length row \<and> length row' = length row \<and>
         (\<forall>j < length row. row' ! j = (if b \<le> j \<and> j < b + 4 \<and> row ! j = AVAILIBLE then UNAVAILIBLE else row ! j))"
  using mark_cells_spec[of b 4 row row'] assms
  by (simp add: mark_full_row_def colors_per_satellite_def)

section \<open>What one propagation does to the matrix\<close>

lemma update_row_full:
  assumes "update_row sc tp True sid (int b) x i row = Inr row'"
  shows "b + 4 \<le> length row \<and> length row' = length row \<and>
         (\<forall>j < length row. row' ! j = (if b \<le> j \<and> j < b + 4 \<and> row ! j = AVAILIBLE then UNAVAILIBLE else row ! j))"
  using assms mark_full_row_spec[of b row row'] by (simp add: update_row_def)

lemma update_row_part:
  assumes "update_row sc tp False sid y (int k) i row = Inr row'"
  shows "k < length row \<and> length row' = length row \<and>
         (\<forall>j < length row. j \<noteq> k \<longrightarrow> row' ! j = row ! j) \<and>
         (row ! k \<noteq> AVAILIBLE \<longrightarrow> row' = row) \<and>
         (row ! k = AVAILIBLE \<longrightarrow>
            (\<exists>up sp a. dict_get (users sc) (str (int i + 1)) = Inr up \<and>
                        dict_get (sats sc) (str sid) = Inr sp \<and>
                        calculate_angle_degrees sp tp up = Inr a \<and>
                        row' = (if a < self_interference_max then row[k := UNAVAILIBLE] else row)))"
  using assms
  by (auto simp: update_row_def py_get_nat py_set_nat split: if_splits sum.splits)

lemma set_cell_nat:
  "set_cell v (int r) (int c) s =
     (if r < length v \<and> c < length (v ! r) then Inr (v[r := (v ! r)[c := s]]) else Inl IndexError)"
  by (simp add: set_cell_def py_norm_index_nat py_set_nat)

lemma update_visibility_Suc:
  "update_visibility v sc t (int (Suc s)) c b =
     (case set_cell v (int t) (int (s * 4 + c)) IN_USE of
        Inl e \<Rightarrow> Inl e
      | Inr v1 \<Rightarrow>
          (case dict_get (users sc) (str (int t + 1)) of
             Inl e \<Rightarrow> Inl e
           | Inr tp \<Rightarrow>
               (case py_get v1 0 of
                  Inl e \<Rightarrow> Inl e
                | Inr row0 \<Rightarrow>
                    for_rows (update_row sc tp (b = 31) (int (Suc s)) (int (s * 4))
                                (int (s * 4 + c))) v1)))"
proof -
  have e1: "(int (Suc s) - 1) * int colors_per_satellite = int (s * 4)"
    by (simp add: colors_per_satellite_def)
  have e2: "int (s * 4) + int c = int (s * 4 + c)" by simp
  have e3: "beams_per_satellite - 1 = 31" by (simp add: beams_per_satellite_def)
  show ?thesis
    unfolding update_visibility_def set_user_beam_def Let_def e1 e2 e3 ..
qed

lemma update_visibility_spec:
  assumes "update_visibility v sc t (int (Suc s)) c b = Inr v'"
  shows "t < length v \<and> s * 4 + c < length (v ! t) \<and> length v' = length v \<and>
         (\<exists>tp. dict_get (users sc) (str (int t + 1)) = Inr tp \<and>
            (\<forall>i < length v.
               update_row sc tp (b = 31) (int (Suc s)) (int (s * 4)) (int (s * 4 + c)) i
                 ((v[t := (v ! t)[s * 4 + c := IN_USE]]) ! i) = Inr (v' ! i)))"
proof -
  let ?v1 = "v[t := (v ! t)[s * 4 + c := IN_USE]]"
  note uv = assms[unfolded update_visibility_Suc set_cell_nat]
  from uv have bounds: "t < length v" "s * 4 + c < length (v ! t)"
    by (auto split: if_splits)
  from uv bounds obtain tp where tp: "dict_get (users sc) (str (int t + 1)) = Inr tp"
    and fr: "for_rows (update_row sc tp (b = 31) (int (Suc s)) (int (s * 4)) (int (s * 4 + c))) ?v1 = Inr v'"
    by (auto split: sum.splits)
  from for_rows_spec[OF fr] bounds tp show ?thesis by auto
qed

lemma cell_step_refl: "cell_step a a"
  by (simp add: cell_step_def)

lemma cell_step_trans: "cell_step a b \<Longrightarrow> cell_step b c \<Longrightarrow> cell_step a c"
  by (auto simp: cell_step_def)

lemma update_row_facts:
  assumes ur: "update_row sc tp full (int (Suc s)) (int (s * 4)) (int (s * 4 + c)) i row = Inr row'"
    and c: "c < 4"
  shows "length row' = length row"
    and "\<forall>j < length row. cell_step (row ! j) (row' ! j)"
    and "\<forall>j < length row. \<not> (s * 4 \<le> j \<and> j < s * 4 + 4) \<longrightarrow> row' ! j = row ! j"
    and "full \<longrightarrow> (\<forall>j. s * 4 \<le> j \<and> j < s * 4 + 4 \<longrightarrow> j < length row \<and> row' ! j \<noteq> AVAILIBLE)"
    and "\<not> full \<longrightarrow> row' ! (s * 4 + c) = AVAILIBLE \<longrightarrow>
           (\<exists>up sp a. dict_get (users sc) (str (int i + 1)) = Inr up \<and>
                       dict_get (sats sc) (str (int (Suc s))) = Inr sp \<and>
                       calculate_angle_degrees sp tp up = Inr a \<and> \<not> a < self_interference_max)"
proof -
  show "length row' = length row"
    using ur update_row_full[of sc tp "int (Suc s)" "s * 4" "int (s * 4 + c)" i row row']
      update_row_part[of sc tp "int (Suc s)" "int (s * 4)" "s * 4 + c" i row row']
    by (cases full) auto
  show "\<forall>j < length row. cell_step (row ! j) (row' ! j)"
  proof (cases full)
    case True
    then show ?thesis
      using ur update_row_full[of sc tp "int (Suc s)" "s * 4" "int (s * 4 + c)" i row row']
      by (auto simp: cell_step_def)
  next
    case False
    then show ?thesis
      using ur update_row_part[of sc tp "int (Suc s)" "int (s * 4)" "s * 4 + c" i row row']
      by (auto simp: cell_step_def nth_list_update split: if_splits)
  qed
  show "\<forall>j < length row. \<not> (s * 4 \<le> j \<and> j < s * 4 + 4) \<longrightarrow> row' ! j = row ! j"
  proof (cases full)
    case True
    then show ?thesis
      using ur update_row_full[of sc tp "int (Suc s)" "s * 4" "int (s * 4 + c)" i row row']
      by auto
  next
    case False
    then show ?thesis
      using c ur update_row_part[of sc tp "int (Suc s)" "int (s * 4)" "s * 4 + c" i row row']
      by (auto simp: nth_list_update split: if_splits)
  qed
  show "full \<longrightarrow> (\<forall>j. s * 4 \<le> j \<and> j < s * 4 + 4 \<longrightarrow> j < length row \<and> row' ! j \<noteq> AVAILIBLE)"
    using ur update_row_full[of sc tp "int (Suc s)" "s * 4" "int (s * 4 + c)" i row row']
    by (auto split: if_splits)
  show "\<not> full \<longrightarrow> row' ! (s * 4 + c) = AVAILIBLE \<longrightarrow>
           (\<exists>up sp a. dict_get (users sc) (str (int i + 1)) = Inr up \<and>
                       dict_get (sats sc) (str (int (Suc s))) = Inr sp \<and>
                       calculate_angle_degrees sp tp up = Inr a \<and> \<not> a < self_interference_max)"
  proof (intro impI)
    assume nf: "\<not> full" and av: "row' ! (s * 4 + c) = AVAILIBLE"
    from nf ur have ur': "update_row sc tp False (int (Suc s)) (int (s * 4)) (int (s * 4 + c)) i row = Inr row'"
      by simp
    note p = update_row_part[OF ur']
    from p have k: "s * 4 + c < length row" and keep: "row ! (s * 4 + c) \<noteq> AVAILIBLE \<longrightarrow> row' = row"
      by blast+
    from keep av have ra: "row ! (s * 4 + c) = AVAILIBLE" by auto
    from p ra have "\<exists>up sp a. dict_get (users sc) (str (int i + 1)) = Inr up \<and>
                        dict_get (sats sc) (str (int (Suc s))) = Inr sp \<and>
                        calculate_angle_degrees sp tp up = Inr a \<and>
                        row' = (if a < self_interference_max then row[s * 4 + c := UNAVAILIBLE] else row)"
      by blast
    then obtain up sp a where
      l: "dict_get (users sc) (str (int i + 1)) = Inr up" "dict_get (sats sc) (str (int (Suc s))) = Inr sp"
        "calculate_angle_degrees sp tp up = Inr a"
      and r: "row' = (if a < self_interference_max then row[s * 4 + c := UNAVAILIBLE] else row)"
      by blast
    have "\<not> a < self_interference_max"
    proof
      assume "a < self_interference_max"
      then have "row' ! (s * 4 + c) = UNAVAILIBLE" using r k by simp
      then show False using av by simp
    qed
    with l show "\<exists>up sp a. dict_get (users sc) (str (int i + 1)) = Inr up \<and>
                       dict_get (sats sc) (str (int (Suc s))) = Inr sp \<and>
                       calculate_angle_degrees sp tp up = Inr a \<and> \<not> a < self_interference_max"
      by blast
  qed
qed

lemma update_visibility_facts:
  assumes uv: "update_visibility v sc t (int (Suc s)) c b = Inr v'"
    and av: "v ! t ! (s * 4 + c) = AVAILIBLE" and c: "c < 4"
  shows "t < length v" and "s * 4 + c < length (v ! t)" and "length v' = length v"
    and "\<forall>i < length v. length (v' ! i) = length (v ! i)"
    and "\<forall>i < length v. \<forall>j < length (v ! i). cell_step (v ! i ! j) (v' ! i ! j)"
    and "\<forall>i < length v. \<forall>j < length (v ! i). \<not> (s * 4 \<le> j \<and> j < s * 4 + 4) \<longrightarrow> v' ! i ! j = v ! i ! j"
    and "b = 31 \<longrightarrow> (\<forall>i < length v. \<forall>j. s * 4 \<le> j \<and> j < s * 4 + 4 \<longrightarrow> v' ! i ! j \<noteq> AVAILIBLE)"
    and "b \<noteq> 31 \<longrightarrow> (\<forall>i < length v. v' ! i ! (s * 4 + c) = AVAILIBLE \<longrightarrow> separated sc (Suc s) (Suc t) (Suc i))"
    and "v' ! t ! (s * 4 + c) = IN_USE"
proof -
  let ?k = "s * 4 + c"
  let ?v1 = "v[t := (v ! t)[?k := IN_USE]]"
  from update_visibility_spec[OF uv] obtain tp where
    t: "t < length v" and k: "?k < length (v ! t)" and len: "length v' = length v"
    and tp: "dict_get (users sc) (str (int t + 1)) = Inr tp"
    and rows: "\<forall>i < length v. update_row sc tp (b = 31) (int (Suc s)) (int (s * 4)) (int ?k) i (?v1 ! i) = Inr (v' ! i)"
    by blast
  show "t < length v" "?k < length (v ! t)" "length v' = length v" by fact+
  have l1: "\<And>i. i < length v \<Longrightarrow> length (?v1 ! i) = length (v ! i)"
    using t by (simp add: nth_list_update)
  have s1: "\<And>i j. i < length v \<Longrightarrow> j < length (v ! i) \<Longrightarrow> cell_step (v ! i ! j) (?v1 ! i ! j)"
    using av t k by (auto simp: nth_list_update cell_step_def split: if_splits)
  have o1: "\<And>i j. i < length v \<Longrightarrow> j < length (v ! i) \<Longrightarrow> \<not> (s * 4 \<le> j \<and> j < s * 4 + 4)
              \<Longrightarrow> ?v1 ! i ! j = v ! i ! j"
    using c t k by (auto simp: nth_list_update split: if_splits)
  note rf = update_row_facts[OF rows[rule_format] c]
  show "\<forall>i < length v. length (v' ! i) = length (v ! i)"
    using rf(1) l1 by simp
  show "\<forall>i < length v. \<forall>j < length (v ! i). cell_step (v ! i ! j) (v' ! i ! j)"
  proof (intro allI impI)
    fix i j assume i: "i < length v" and j: "j < length (v ! i)"
    have "cell_step (?v1 ! i ! j) (v' ! i ! j)" using rf(2)[OF i] j l1[OF i] by simp
    with s1[OF i j] show "cell_step (v ! i ! j) (v' ! i ! j)" by (rule cell_step_trans)
  qed
  show "\<forall>i < length v. \<forall>j < length (v ! i). \<not> (s * 4 \<le> j \<and> j < s * 4 + 4) \<longrightarrow> v' ! i ! j = v ! i ! j"
  proof (intro allI impI)
    fix i j assume i: "i < length v" and j: "j < length (v ! i)" and o: "\<not> (s * 4 \<le> j \<and> j < s * 4 + 4)"
    have "v' ! i ! j = ?v1 ! i ! j" using rf(3)[OF i] j l1[OF i] o by simp
    with o1[OF i j o] show "v' ! i ! j = v ! i ! j" by simp
  qed
  show "b = 31 \<longrightarrow> (\<forall>i < length v. \<forall>j. s * 4 \<le> j \<and> j < s * 4 + 4 \<longrightarrow> v' ! i ! j \<noteq> AVAILIBLE)"
    using rf(4) by blast
  show "b \<noteq> 31 \<longrightarrow> (\<forall>i < length v. v' ! i ! ?k = AVAILIBLE \<longrightarrow> separated sc (Suc s) (Suc t) (Suc i))"
  proof (intro allI impI)
    fix i assume b: "b \<noteq> 31" and i: "i < length v" and a: "v' ! i ! ?k = AVAILIBLE"
    from rf(5)[OF i] b a obtain up sp ang where
      "dict_get (users sc) (str (int i + 1)) = Inr up" "dict_get (sats sc) (str (int (Suc s))) = Inr sp"
      "calculate_angle_degrees sp tp up = Inr ang" "\<not> ang < self_interference_max"
      by blast
    then show "separated sc (Suc s) (Suc t) (Suc i)"
      using tp by (simp add: separated_def add.commute)
  qed
  have "cell_step (?v1 ! t ! ?k) (v' ! t ! ?k)" using rf(2)[OF t] k l1[OF t] by simp
  moreover have "?v1 ! t ! ?k = IN_USE" using t k by simp
  ultimately show "v' ! t ! ?k = IN_USE" by (simp add: cell_step_def)
qed

section \<open>One iteration of the solver\<close>

lemma find_available_from:
  "find_available row [m..<n] = Inr r \<Longrightarrow>
     (case r of
        None \<Rightarrow> (\<forall>x. m \<le> x \<and> x < n \<longrightarrow> x < length row \<and> row ! x \<noteq> AVAILIBLE)
      | Some j \<Rightarrow> m \<le> j \<and> j < n \<and> j < length row \<and> row ! j = AVAILIBLE \<and>
                  (\<forall>x. m \<le> x \<and> x < j \<longrightarrow> row ! x \<noteq> AVAILIBLE))"
proof (induction "n - m" arbitrary: m)
  case 0
  then show ?case by (auto split: option.splits)
next
  case (Suc d)
  then have mn: "m < n" and d: "d = n - Suc m" by simp_all
  have u: "[m..<n] = m # [Suc m..<n]" using mn by (simp add: upt_rec)
  from Suc.prems have ml: "m < length row"
    by (auto simp: u py_get_nat split: if_splits)
  show ?case
  proof (cases "row ! m = AVAILIBLE")
    case True
    then have "r = Some m" using Suc.prems ml by (simp add: u py_get_nat)
    then show ?thesis using True mn ml by auto
  next
    case False
    then have "find_available row [Suc m..<n] = Inr r" using Suc.prems ml by (simp add: u py_get_nat)
    from Suc.hyps(1)[OF d this] False ml show ?thesis
      by (auto split: option.splits simp: Suc_le_eq elim: le_neq_trans[rotated] dest: le_neq_implies_less)
  qed
qed

lemmas find_available_spec = find_available_from[where m = 0, simplified]

lemma find_available_total:
  "n \<le> length row \<Longrightarrow> \<exists>r. find_available row [m..<n] = Inr r"
proof (induction "n - m" arbitrary: m)
  case 0
  then show ?case by simp
next
  case (Suc d)
  then have mn: "m < n" and d: "d = n - Suc m" by simp_all
  have u: "[m..<n] = m # [Suc m..<n]" using mn by (simp add: upt_rec)
  show ?case using Suc.hyps(1)[OF d Suc.prems] mn Suc.prems by (simp add: u py_get_nat)
qed

lemma beams_of_update:
  "beams_of (AList.update k x sol) k' = (if k' = k then x else beams_of sol k')"
  by (simp add: beams_of_def update_conv')

lemma schedule_user_spec:
  assumes "schedule_user sc n i (v, sol) = Inr (v', sol')"
  shows "i < length v \<and>
         ((\<forall>j < n. j < length (v ! i) \<and> v ! i ! j \<noteq> AVAILIBLE) \<and> v' = v \<and> sol' = sol \<or>
          (\<exists>j < n. j < length (v ! i) \<and> v ! i ! j = AVAILIBLE \<and> (\<forall>x < j. v ! i ! x \<noteq> AVAILIBLE) \<and>
             sol' = AList.update (Suc (j div 4)) (beams_of sol (Suc (j div 4)) @ [(Suc i, j mod 4)]) sol \<and>
             update_visibility v sc i (int (Suc (j div 4))) (j mod 4)
               (length (beams_of sol (Suc (j div 4)))) = Inr v'))"
proof -
  from assms have i: "i < length v"
    by (auto simp: schedule_user_def py_get_nat split: if_splits)
  from assms i obtain r where r: "find_available (v ! i) [0..<n] = Inr r"
    by (auto simp: schedule_user_def py_get_nat split: sum.splits)
  show ?thesis
  proof (cases r)
    case None
    then show ?thesis using assms i r find_available_spec[OF r]
      by (auto simp: schedule_user_def py_get_nat)
  next
    case (Some j)
    from assms i r Some have ab: "assign_beam sc i j (v, sol) = Inr (v', sol')"
      by (simp add: schedule_user_def py_get_nat)
    from find_available_spec[OF r] Some have j: "j < n" "j < length (v ! i)" "v ! i ! j = AVAILIBLE"
      "\<forall>x < j. v ! i ! x \<noteq> AVAILIBLE" by auto
    from ab have "sol' = AList.update (Suc (j div 4)) (beams_of sol (Suc (j div 4)) @ [(Suc i, j mod 4)]) sol \<and>
             update_visibility v sc i (int (Suc (j div 4))) (j mod 4)
               (length (beams_of sol (Suc (j div 4)))) = Inr v'"
      by (auto simp: assign_beam_def Let_def colors_per_satellite_def beams_of_update split: sum.splits)
    with i j show ?thesis by blast
  qed
qed

section \<open>The capacity of a satellite\<close>

lemma block_index: "(j div 4) * 4 \<le> (j::nat)" "j < (j div 4) * 4 + 4" "(j div 4) * 4 + j mod 4 = j"
  by presburger+

lemma capacity_inv_step:
  assumes inv: "capacity_inv (v, sol)" and st: "schedule_user sc n i (v, sol) = Inr (v', sol')"
  shows "capacity_inv (v', sol')"
proof -
  from schedule_user_spec[OF st] consider
    (none) "v' = v" "sol' = sol"
  | (some) j where "j < length (v ! i)" "v ! i ! j = AVAILIBLE" "i < length v"
      "sol' = AList.update (Suc (j div 4)) (beams_of sol (Suc (j div 4)) @ [(Suc i, j mod 4)]) sol"
      "update_visibility v sc i (int (Suc (j div 4))) (j mod 4) (length (beams_of sol (Suc (j div 4)))) = Inr v'"
    by blast
  then show ?thesis
  proof cases
    case none
    then show ?thesis using inv by simp
  next
    case some
    define s0 where "s0 = j div 4"
    define c where "c = j mod 4"
    define b where "b = length (beams_of sol (Suc s0))"
    have jc: "s0 * 4 + c = j" "s0 * 4 \<le> j" "j < s0 * 4 + 4" "c < 4"
      unfolding s0_def c_def by presburger+
    have uv: "update_visibility v sc i (int (Suc s0)) c b = Inr v'"
      using some(5) by (simp add: s0_def c_def b_def)
    have av: "v ! i ! (s0 * 4 + c) = AVAILIBLE" using some(2) jc by simp
    note f = update_visibility_facts[OF uv av jc(4)]
    have sol': "\<And>k. beams_of sol' k = (if k = Suc s0 then beams_of sol (Suc s0) @ [(Suc i, c)] else beams_of sol k)"
      using some(4) by (simp add: beams_of_update s0_def c_def)
    have b32: "b \<noteq> 32"
    proof
      assume "b = 32"
      then have "v ! i ! j \<noteq> AVAILIBLE"
        using inv some(1,3) jc(2,3) unfolding capacity_inv_def b_def by simp
      then show False using some(2) by simp
    qed
    have ble: "b \<le> 32" using inv unfolding capacity_inv_def b_def by simp
    show ?thesis
      unfolding capacity_inv_def fst_conv snd_conv
    proof (intro conjI allI)
      show "beams_of sol' 0 = []" using inv by (simp add: sol' capacity_inv_def)
    next
      fix s
      have "length (beams_of sol (Suc s)) \<le> 32" using inv by (simp add: capacity_inv_def)
      then show "length (beams_of sol' (Suc s)) \<le> 32"
        using b32 ble by (auto simp: sol' b_def)
    next
      fix s
      show "length (beams_of sol' (Suc s)) = 32 \<longrightarrow>
         (\<forall>i<length v'. \<forall>j<length (v' ! i). s * 4 \<le> j \<and> j < s * 4 + 4 \<longrightarrow> v' ! i ! j \<noteq> AVAILIBLE)"
      proof (intro impI allI)
        fix r x assume full: "length (beams_of sol' (Suc s)) = 32" and r: "r < length v'"
          and x: "x < length (v' ! r)" and blk: "s * 4 \<le> x \<and> x < s * 4 + 4"
        have r': "r < length v" and x': "x < length (v ! r)" using r x f(3,4) by auto
        show "v' ! r ! x \<noteq> AVAILIBLE"
        proof (cases "s = s0")
          case True
          then have "b = 31" using full by (simp add: sol' b_def)
          then show ?thesis using f(7) r' blk True by blast
        next
          case False
          then have "length (beams_of sol (Suc s)) = 32" using full by (simp add: sol')
          then have "v ! r ! x \<noteq> AVAILIBLE"
            using inv r' x' blk unfolding capacity_inv_def by simp
          moreover have "cell_step (v ! r ! x) (v' ! r ! x)" using f(5) r' x' by blast
          ultimately show ?thesis by (auto simp: cell_step_def)
        qed
      qed
    qed
  qed
qed

lemma solve_prefix_capacity:
  assumes "solve_prefix sc v k = Inr st"
  shows "capacity_inv st"
proof -
  from assms obtain row0 :: "BeamState list" where f: "fold_err (schedule_user sc (length row0)) [0..<k] (v, []) = Inr st"
    by (auto simp: solve_prefix_def split: sum.splits)
  show ?thesis
  proof (rule fold_err_upt_inv[where P = "\<lambda>_. capacity_inv", OF f])
    show "capacity_inv (v, [])" by (simp add: capacity_inv_def beams_of_def)
  next
    fix i t t' assume "capacity_inv t" "schedule_user sc (length row0) i t = Inr t'"
    then show "capacity_inv t'" using capacity_inv_step[of "fst t" "snd t" sc "length row0" i "fst t'" "snd t'"]
      by simp
  qed
qed

section \<open>Counting the records of a satellite\<close>

lemma solve_as_prefix: "solve sc v = solve_prefix sc v (length v)"
  by (simp add: solve_def solve_prefix_def Let_def split: sum.splits)

lemma schedule_user_keys:
  assumes "schedule_user sc n i (v, sol) = Inr (v', sol')" "distinct (map fst sol)"
  shows "distinct (map fst sol')"
  using schedule_user_spec[OF assms(1)] assms(2) by (auto simp: distinct_update)

lemma schedule_user_prefix:
  assumes "schedule_user sc n i (v, sol) = Inr (v', sol')"
  shows "prefix (beams_of sol sat) (beams_of sol' sat)"
  using schedule_user_spec[OF assms] by (auto simp: beams_of_update)

lemma solve_prefix_keys:
  assumes "solve_prefix sc v k = Inr st"
  shows "distinct (map fst (snd st))"
proof -
  from assms obtain row0 :: "BeamState list" where f: "fold_err (schedule_user sc (length row0)) [0..<k] (v, []) = Inr st"
    by (auto simp: solve_prefix_def split: sum.splits)
  show ?thesis
  proof (rule fold_err_upt_inv[where P = "\<lambda>_ st. distinct (map fst (snd st))", OF f])
    show "distinct (map fst (snd (v, [])))" by simp
  next
    fix i t t' assume "distinct (map fst (snd t))" "schedule_user sc (length row0) i t = Inr t'"
    then show "distinct (map fst (snd t'))"
      using schedule_user_keys[of sc "length row0" i "fst t" "snd t" "fst t'" "snd t'"] by simp
  qed
qed

lemma solve_prefix_mono:
  assumes a: "solve_prefix sc v k = Inr st" and b: "solve_prefix sc v k' = Inr st'" and le: "k \<le> k'"
  shows "prefix (beams_of (snd st) sat) (beams_of (snd st') sat)"
proof -
  from a obtain row0 :: "BeamState list" where r: "py_get v 0 = Inr row0"
    and f: "fold_err (schedule_user sc (length row0)) [0..<k] (v, []) = Inr st"
    by (auto simp: solve_prefix_def split: sum.splits)
  have "[0..<k'] = [0..<k] @ [k..<k']" using le upt_add_eq_append[of 0 k "k' - k"] by simp
  with b r f have g: "fold_err (schedule_user sc (length row0)) [k..<k'] st = Inr st'"
    by (simp add: solve_prefix_def fold_err_append)
  show ?thesis
  proof (rule fold_err_rel[where R = "\<lambda>t t'. prefix (beams_of (snd t) sat) (beams_of (snd t') sat)", OF g])
    fix x t t' assume "schedule_user sc (length row0) x t = Inr t'"
    then show "prefix (beams_of (snd t) sat) (beams_of (snd t') sat)"
      using schedule_user_prefix[of sc "length row0" x "fst t" "snd t" "fst t'" "snd t'" sat] by simp
  qed (auto intro: prefix_order.trans)
qed

lemma records_of_Cons: "records_of ((k, bs) # sol) = records_for k bs @ records_of sol"
  by (simp add: records_of_def records_for_def)

lemma records_of_Nil: "records_of [] = []"
  by (simp add: records_of_def)

lemma filter_records_for:
  "filter (\<lambda>r. fst r = sat) (records_for k bs) = (if k = sat then records_for k bs else [])"
  by (auto simp: records_for_def filter_empty_conv o_def)

lemma filter_records_other:
  "sat \<notin> fst ` set sol \<Longrightarrow> filter (\<lambda>r. fst r = sat) (records_of sol) = []"
  by (induction sol) (auto simp: records_of_Cons records_of_Nil filter_records_for)

lemma filter_records_of:
  "distinct (map fst sol) \<Longrightarrow>
     filter (\<lambda>r. fst r = sat) (records_of sol) = records_for sat (beams_of sol sat)"
proof (induction sol)
  case Nil
  then show ?case by (simp add: records_of_Nil records_for_def beams_of_def)
next
  case (Cons p sol)
  obtain k bs where p: "p = (k, bs)" by (cases p)
  show ?case
  proof (cases "k = sat")
    case True
    then have "sat \<notin> fst ` set sol" using Cons.prems p by auto
    then show ?thesis using True p
      by (simp add: records_of_Cons filter_records_for filter_records_other beams_of_def)
  next
    case False
    then show ?thesis using Cons p
      by (simp add: records_of_Cons filter_records_for beams_of_def)
  qed
qed

lemma records_for_inj: "records_for sat bs = records_for sat bs' \<Longrightarrow> bs = bs'"
proof -
  assume e: "records_for sat bs = records_for sat bs'"
  then have l: "length bs = length bs'" using map_eq_imp_length_eq[OF e[unfolded records_for_def]] by simp
  have "\<forall>i < length bs. bs ! i = bs' ! i"
  proof (intro allI impI)
    fix i assume i: "i < length bs"
    from e have "records_for sat bs ! i = records_for sat bs' ! i" by simp
    then show "bs ! i = bs' ! i" using i l by (simp add: records_for_def prod_eq_iff)
  qed
  with l show ?thesis by (simp add: list_eq_iff_nth_eq)
qed

text \<open>
  The states that a run reaches: every satellite has at most \<open>beams_per_satellite\<close>
  records; when a satellite has that many, no cell of any of its colours is available in
  any row, and every later state of the run has the same records for it.
\<close>

lemma solve_prefix_bounded:
  assumes run: "solve_prefix sc v k = Inr (v', sol)"
  shows "\<forall>sat. length (filter (\<lambda>r. fst r = sat) (records_of sol)) \<le> beams_per_satellite \<and>
           (length (filter (\<lambda>r. fst r = sat) (records_of sol)) = beams_per_satellite \<longrightarrow>
              (\<forall>i < length v'. \<forall>j < length (v' ! i).
                 (sat - 1) * colors_per_satellite \<le> j \<and>
                 j < (sat - 1) * colors_per_satellite + colors_per_satellite \<longrightarrow>
                 v' ! i ! j \<noteq> AVAILIBLE) \<and>
              (\<forall>k' st'. k \<le> k' \<and> solve_prefix sc v k' = Inr st' \<longrightarrow>
                 filter (\<lambda>r. fst r = sat) (records_of (snd st'))
                   = filter (\<lambda>r. fst r = sat) (records_of sol)))"
proof
  fix sat
  have keys: "distinct (map fst sol)" using solve_prefix_keys[OF run] by simp
  have cnt: "length (filter (\<lambda>r. fst r = sat) (records_of sol)) = length (beams_of sol sat)"
    by (simp add: filter_records_of[OF keys] records_for_def)
  have inv: "capacity_inv (v', sol)" by (rule solve_prefix_capacity[OF run])
  have le: "length (beams_of sol sat) \<le> 32"
    using inv by (cases sat) (simp_all add: capacity_inv_def)
  have cells: "\<forall>i < length v'. \<forall>j < length (v' ! i).
                 (sat - 1) * 4 \<le> j \<and> j < (sat - 1) * 4 + 4 \<longrightarrow> v' ! i ! j \<noteq> AVAILIBLE"
    if full: "length (beams_of sol sat) = 32"
  proof (cases sat)
    case 0
    then show ?thesis using inv full by (simp add: capacity_inv_def)
  next
    case (Suc s)
    then show ?thesis using inv full by (simp add: capacity_inv_def)
  qed
  have later: "filter (\<lambda>r. fst r = sat) (records_of (snd st')) = filter (\<lambda>r. fst r = sat) (records_of sol)"
    if full: "length (beams_of sol sat) = 32" and k': "k \<le> k'" and run': "solve_prefix sc v k' = Inr st'"
    for k' st'
  proof -
    have keys': "distinct (map fst (snd st'))" by (rule solve_prefix_keys[OF run'])
    have "capacity_inv st'" by (rule solve_prefix_capacity[OF run'])
    then have le': "length (beams_of (snd st') sat) \<le> 32"
      by (cases sat) (simp_all add: capacity_inv_def)
    have "prefix (beams_of sol sat) (beams_of (snd st') sat)"
      using solve_prefix_mono[OF run run' k', of sat] by simp
    then obtain zs where zs: "beams_of (snd st') sat = beams_of sol sat @ zs"
      by (auto simp: prefix_def)
    with le' full have "zs = []" by simp
    with zs show ?thesis by (simp add: filter_records_of keys keys')
  qed
  show "length (filter (\<lambda>r. fst r = sat) (records_of sol)) \<le> beams_per_satellite \<and>
           (length (filter (\<lambda>r. fst r = sat) (records_of sol)) = beams_per_satellite \<longrightarrow>
              (\<forall>i < length v'. \<forall>j < length (v' ! i).
                 (sat - 1) * colors_per_satellite \<le> j \<and>
                 j < (sat - 1) * colors_per_satellite + colors_per_satellite \<longrightarrow>
                 v' ! i ! j \<noteq> AVAILIBLE) \<and>
              (\<forall>k' st'. k \<le> k' \<and> solve_prefix sc v k' = Inr st' \<longrightarrow>
                 filter (\<lambda>r. fst r = sat) (records_of (snd st'))
                   = filter (\<lambda>r. fst r = sat) (records_of sol)))"
    unfolding cnt beams_per_satellite_def colors_per_satellite_def
    using le cells later by blast
qed

section \<open>Self-interference\<close>

lemma calculate_angle_degrees_sym:
  "calculate_angle_degrees v a b = calculate_angle_degrees v b a"
  unfolding calculate_angle_degrees_def Let_def Vector3.sel
  by (simp add: mult.commute)

lemma separated_sym: "separated sc sat a b \<Longrightarrow> separated sc sat b a"
  unfolding separated_def
  by (auto simp: calculate_angle_degrees_sym[of _ "_" "_"] split: sum.splits)

lemma separation_inv_step:
  assumes inv: "separation_inv sc (v, sol)" and st: "schedule_user sc n i (v, sol) = Inr (v', sol')"
  shows "separation_inv sc (v', sol')"
proof -
  from schedule_user_spec[OF st] consider
    (none) "v' = v" "sol' = sol"
  | (some) j where "j < length (v ! i)" "v ! i ! j = AVAILIBLE" "i < length v"
      "sol' = AList.update (Suc (j div 4)) (beams_of sol (Suc (j div 4)) @ [(Suc i, j mod 4)]) sol"
      "update_visibility v sc i (int (Suc (j div 4))) (j mod 4) (length (beams_of sol (Suc (j div 4)))) = Inr v'"
    by blast
  then show ?thesis
  proof cases
    case none
    then show ?thesis using inv by simp
  next
    case some
    define s0 where "s0 = j div 4"
    define c where "c = j mod 4"
    define bs0 where "bs0 = beams_of sol (Suc s0)"
    have jc: "s0 * 4 + c = j" "c < 4"
      unfolding s0_def c_def by presburger+
    have uv: "update_visibility v sc i (int (Suc s0)) c (length bs0) = Inr v'"
      using some(5) by (simp add: s0_def c_def bs0_def)
    have av: "v ! i ! (s0 * 4 + c) = AVAILIBLE" using some(2) jc by simp
    note f = update_visibility_facts[OF uv av jc(2)]
    have sol': "\<And>k. beams_of sol' k = (if k = Suc s0 then bs0 @ [(Suc i, c)] else beams_of sol k)"
      using some(4) by (simp add: beams_of_update s0_def c_def bs0_def)
    have was_av: "x < length (v ! r) \<and> v ! r ! x = AVAILIBLE"
      if "r < length v'" "x < length (v' ! r)" "v' ! r ! x = AVAILIBLE" for r x
    proof -
      have r: "r < length v" and x: "x < length (v ! r)" using that f(3,4) by auto
      have "cell_step (v ! r ! x) (v' ! r ! x)" using f(5) r x by blast
      then show ?thesis using that(3) x by (auto simp: cell_step_def)
    qed
    have len: "length v' = length v" by (rule f(3))
    have old_rows: "separated sc (Suc s) (fst (beams_of sol (Suc s) ! a)) (Suc r)"
      if "a < length (beams_of sol (Suc s))" "r < length v'"
         "s * 4 + snd (beams_of sol (Suc s) ! a) < length (v' ! r)"
         "v' ! r ! (s * 4 + snd (beams_of sol (Suc s) ! a)) = AVAILIBLE" for s a r
      using inv was_av[OF that(2,3,4)] that(1,2) len unfolding separation_inv_def by simp
    have old_pairs: "separated sc (Suc s) (fst (beams_of sol (Suc s) ! a)) (fst (beams_of sol (Suc s) ! b))"
      if "a < b" "b < length (beams_of sol (Suc s))"
         "snd (beams_of sol (Suc s) ! a) = snd (beams_of sol (Suc s) ! b)" for s a b
      using inv that unfolding separation_inv_def by simp
    have new_rows: "separated sc (Suc s0) (Suc i) (Suc r)"
      if "r < length v'" "v' ! r ! (s0 * 4 + c) = AVAILIBLE" for r
    proof (cases "length bs0 = 31")
      case True
      then show ?thesis using f(7) that len jc(2) by auto
    next
      case False
      then show ?thesis using f(8) that len by auto
    qed
    have new_pairs: "separated sc (Suc s0) (fst (bs0 ! a)) (Suc i)"
      if "a < length bs0" "snd (bs0 ! a) = c" for a
      using inv that some(1,2,3) jc(1) unfolding separation_inv_def bs0_def by simp
    show ?thesis
      unfolding separation_inv_def fst_conv snd_conv
    proof (intro allI impI conjI)
      fix s a r
      assume a: "a < length (beams_of sol' (Suc s))" and r: "r < length v'"
        and x: "s * 4 + snd (beams_of sol' (Suc s) ! a) < length (v' ! r) \<and>
                v' ! r ! (s * 4 + snd (beams_of sol' (Suc s) ! a)) = AVAILIBLE"
      show "separated sc (Suc s) (fst (beams_of sol' (Suc s) ! a)) (Suc r)"
      proof (cases "s = s0 \<and> a = length bs0")
        case True
        then show ?thesis using new_rows[OF r] x by (simp add: sol')
      next
        case False
        then have a': "a < length (beams_of sol (Suc s))"
          using a by (cases "s = s0"; auto simp: sol' bs0_def nth_append)
        from False a have e: "beams_of sol' (Suc s) ! a = beams_of sol (Suc s) ! a"
          by (cases "s = s0"; auto simp: sol' bs0_def nth_append)
        show ?thesis using old_rows[OF a' r] x unfolding e by simp
      qed
    next
      fix s a b
      assume a: "a < length (beams_of sol' (Suc s))" and b: "b < length (beams_of sol' (Suc s))"
        and ab: "a < b \<and> snd (beams_of sol' (Suc s) ! a) = snd (beams_of sol' (Suc s) ! b)"
      show "separated sc (Suc s) (fst (beams_of sol' (Suc s) ! a)) (fst (beams_of sol' (Suc s) ! b))"
      proof (cases "s = s0 \<and> b = length bs0")
        case True
        then have a': "a < length bs0" using ab by simp
        have "snd (bs0 ! a) = c" using True ab a' by (simp add: sol' nth_append)
        from new_pairs[OF a' this] show ?thesis using True a' by (simp add: sol' nth_append)
      next
        case False
        then have b': "b < length (beams_of sol (Suc s))"
          using b by (cases "s = s0"; auto simp: sol' bs0_def nth_append)
        from False a b ab have e: "beams_of sol' (Suc s) ! a = beams_of sol (Suc s) ! a"
          by (cases "s = s0"; auto simp: sol' bs0_def nth_append)
        from False a b ab have e2: "beams_of sol' (Suc s) ! b = beams_of sol (Suc s) ! b"
          by (cases "s = s0"; auto simp: sol' bs0_def nth_append)
        show ?thesis using old_pairs[OF _ b'] ab unfolding e e2 by simp
      qed
    qed
  qed
qed

lemma solve_prefix_separation:
  assumes "solve_prefix sc v k = Inr st"
  shows "separation_inv sc st"
proof -
  from assms obtain row0 :: "BeamState list" where f: "fold_err (schedule_user sc (length row0)) [0..<k] (v, []) = Inr st"
    by (auto simp: solve_prefix_def split: sum.splits)
  show ?thesis
  proof (rule fold_err_upt_inv[where P = "\<lambda>_. separation_inv sc", OF f])
    show "separation_inv sc (v, [])" by (simp add: separation_inv_def beams_of_def)
  next
    fix i t t' assume "separation_inv sc t" "schedule_user sc (length row0) i t = Inr t'"
    then show "separation_inv sc t'" using separation_inv_step[of sc "fst t" "snd t" "length row0" i "fst t'" "snd t'"]
      by simp
  qed
qed

lemma record_mem:
  assumes keys: "distinct (map fst sol)" and r: "r \<in> set (records_of sol)"
  shows "\<exists>a < length (beams_of sol (fst r)).
           r = (fst r, a + 1, fst (beams_of sol (fst r) ! a), snd (beams_of sol (fst r) ! a))"
proof -
  from r have "r \<in> set (filter (\<lambda>x. fst x = fst r) (records_of sol))" by simp
  then have "r \<in> set (records_for (fst r) (beams_of sol (fst r)))"
    by (simp only: filter_records_of[OF keys])
  then show ?thesis by (auto simp: records_for_def)
qed

text \<open>
  Claim C1. In the solution of the solver, run on any matrix and so on the matrix built
  from the scenario, two different records of one satellite and one colour have users
  whose positions are stored in the scenario and whose angle at the satellite is computed
  and is at least \<open>self_interference_max\<close>.
\<close>

theorem same_colour_beams_separated:
  assumes run: "solve sc v = Inr (v', sol)"
  shows "\<forall>r1 r2. r1 \<in> set (records_of sol) \<and> r2 \<in> set (records_of sol) \<and> r1 \<noteq> r2 \<and>
           fst r1 = fst r2 \<and> snd (snd (snd r1)) = snd (snd (snd r2)) \<longrightarrow>
           separated sc (fst r1) (fst (snd (snd r1))) (fst (snd (snd r2)))"
proof (intro allI impI)
  fix r1 r2 :: "nat \<times> nat \<times> nat \<times> nat"
  assume h: "r1 \<in> set (records_of sol) \<and> r2 \<in> set (records_of sol) \<and> r1 \<noteq> r2 \<and>
           fst r1 = fst r2 \<and> snd (snd (snd r1)) = snd (snd (snd r2))"
  from run have p: "solve_prefix sc v (length v) = Inr (v', sol)" by (simp add: solve_as_prefix)
  have keys: "distinct (map fst sol)" using solve_prefix_keys[OF p] by simp
  have cap: "capacity_inv (v', sol)" by (rule solve_prefix_capacity[OF p])
  have sep: "separation_inv sc (v', sol)" by (rule solve_prefix_separation[OF p])
  define sat where "sat = fst r1"
  define bs where "bs = beams_of sol sat"
  have m1: "r1 \<in> set (records_of sol)" and m2: "r2 \<in> set (records_of sol)"
    and same: "fst r2 = sat" using h by (simp_all add: sat_def)
  from record_mem[OF keys m1] obtain a1 where
    a1: "a1 < length bs" "r1 = (sat, a1 + 1, fst (bs ! a1), snd (bs ! a1))"
    unfolding sat_def bs_def by blast
  from record_mem[OF keys m2] obtain a2 where
    a2: "a2 < length bs" "r2 = (sat, a2 + 1, fst (bs ! a2), snd (bs ! a2))"
    unfolding same bs_def by blast
  from a1(1) cap obtain s where s: "sat = Suc s"
    unfolding bs_def capacity_inv_def by (cases sat) auto
  have ne: "a1 \<noteq> a2" using h a1(2) a2(2) by auto
  have col: "snd (bs ! a1) = snd (bs ! a2)" using h a1(2) a2(2) by simp
  have "separated sc sat (fst (bs ! a1)) (fst (bs ! a2))"
  proof (cases "a1 < a2")
    case True
    then show ?thesis using sep a1(1) a2(1) col unfolding separation_inv_def s bs_def by simp
  next
    case False
    then have "a2 < a1" using ne by simp
    then have "separated sc sat (fst (bs ! a2)) (fst (bs ! a1))"
      using sep a1(1) a2(1) col unfolding separation_inv_def s bs_def by simp
    then show ?thesis by (rule separated_sym)
  qed
  then show "separated sc (fst r1) (fst (snd (snd r1))) (fst (snd (snd r2)))"
    by (subst (1 2) a1(2), subst a2(2)) simp
qed

section \<open>Concrete runs\<close>

lemma degrees_arccos_not_close:
  assumes "- 1 \<le> q" "q \<le> 17 / 20"
  shows "\<not> degrees (arccos q) < self_interference_max"
proof -
  have "(17 / 20 :: real) \<le> sqrt 3 / 2"
  proof -
    have "(17 / 10 :: real)\<^sup>2 \<le> 3" by (simp add: power2_eq_square)
    then have "17 / 10 \<le> sqrt 3" by (rule real_le_rsqrt)
    then show ?thesis by simp
  qed
  then have q: "q \<le> sqrt 3 / 2" using assms(2) by simp
  have "sqrt 3 \<le> 2" by (rule real_le_lsqrt) (simp_all add: power2_eq_square)
  then have "sqrt 3 / 2 \<le> 1" by simp
  then have "arccos (sqrt 3 / 2) \<le> arccos q"
    using assms(1) q by (intro arccos_le_arccos) auto
  moreover have "arccos (sqrt 3 / 2) = pi / 6"
    using arccos_cos[of "pi / 6"] by (simp add: cos_30)
  ultimately have "pi / 6 \<le> arccos q" by simp
  then have "30 \<le> degrees (arccos q)"
    using pi_gt_zero by (simp add: degrees_def field_simps)
  then show ?thesis by (simp add: self_interference_max_def)
qed

lemma degrees_arccos_overhead:
  assumes "- 1 \<le> q" "q \<le> - (3 / 4)"
  shows "\<not> degrees (arccos q) \<le> 180 - max_user_visible_angle"
proof -
  have s2: "sqrt 2 / 2 < (3 / 4 :: real)"
  proof -
    have "(2 :: real) < (3 / 2)\<^sup>2" by (simp add: power2_eq_square)
    then have "sqrt 2 < 3 / 2" by (intro real_less_lsqrt) simp_all
    then show ?thesis by simp
  qed
  have c: "cos (3 * pi / 4) = - (sqrt 2 / 2)"
  proof -
    have "cos (pi - pi / 4) = - cos (pi / 4)" by (rule cos_pi_minus)
    moreover have "pi - pi / 4 = 3 * pi / 4" by simp
    ultimately show ?thesis by (simp add: cos_45)
  qed
  have lt: "q < - (sqrt 2 / 2)" using assms(2) s2 by simp
  have "- (sqrt 2 / 2) \<le> 1" by (rule order_trans[of _ 0]) simp_all
  then have "arccos (- (sqrt 2 / 2)) < arccos q"
    using assms(1) lt by (intro arccos_less_arccos) auto
  moreover have "arccos (- (sqrt 2 / 2)) = 3 * pi / 4"
    using arccos_cos[of "3 * pi / 4"] pi_gt_zero by (simp add: c)
  ultimately have "3 * pi / 4 < arccos q" by simp
  then have "135 < degrees (arccos q)"
    using pi_gt_zero by (simp add: degrees_def field_simps)
  then show ?thesis by (simp add: max_user_visible_angle_def)
qed

lemma sqrt_625: "sqrt 625 = 25"
  by (rule real_sqrt_unique) simp_all

lemma sqrt_25: "sqrt 25 = 5"
  by (rule real_sqrt_unique) simp_all

lemma overhead_rule:
  "- 1 \<le> q \<Longrightarrow> q \<le> - (3 / 4) \<Longrightarrow> (degrees (arccos q) \<le> 180 - max_user_visible_angle) = False"
  using degrees_arccos_overhead by simp

lemma not_close_rule:
  "- 1 \<le> q \<Longrightarrow> q \<le> 17 / 20 \<Longrightarrow> (degrees (arccos q) < self_interference_max) = False"
  using degrees_arccos_not_close by simp

lemma two_users_angles:
  "calculate_angle_degrees (Vector3 7 0 24) origin (Vector3 0 0 48) = Inr (degrees (arccos (- (527 / 625))))"
  "calculate_angle_degrees (Vector3 (- 7) 0 24) origin (Vector3 0 0 48) = Inr (degrees (arccos (- (527 / 625))))"
  "calculate_angle_degrees (Vector3 0 0 48) (Vector3 7 0 24) (Vector3 (- 7) 0 24) = Inr (degrees (arccos (527 / 625)))"
  by (simp_all add: calculate_angle_degrees_def origin_def Let_def sqrt_625)

lemmas solver_defs = solve_def py_get_def py_set_def py_norm_index_def schedule_user_def
  assign_beam_def beams_of_def update_visibility_def set_user_beam_def set_cell_def dict_get_def
  for_rows_def update_row_def mark_full_row_def mark_full_cell_def
  colors_per_satellite_def beams_per_satellite_def Let_def

lemmas matrix_defs = generate_visibility_matrix_def visit_pair_def mark_available_def
  set_cell_def py_set_def py_norm_index_def colors_per_satellite_def Let_def

lemma replicate_4: "replicate 4 x = [x, x, x, x]"
  by (simp add: numeral_eq_Suc)

lemma two_users_matrix:
  "generate_visibility_matrix two_users
     = Inr [[AVAILIBLE, AVAILIBLE, AVAILIBLE, AVAILIBLE], [AVAILIBLE, AVAILIBLE, AVAILIBLE, AVAILIBLE]]"
  by (simp add: two_users_def matrix_defs two_users_angles overhead_rule py_int_small upt4 replicate_4)

lemma two_users_solve:
  "solve two_users [[AVAILIBLE, AVAILIBLE, AVAILIBLE, AVAILIBLE], [AVAILIBLE, AVAILIBLE, AVAILIBLE, AVAILIBLE]]
     = Inr ([[IN_USE, AVAILIBLE, AVAILIBLE, AVAILIBLE], [IN_USE, AVAILIBLE, AVAILIBLE, AVAILIBLE]],
            [(1, [(1, 0), (2, 0)])])"
  by (simp add: two_users_def solver_defs two_users_angles not_close_rule str_small upt4)

theorem same_colour_beams_separated_witness:
  "run_scenario two_users
     = Inr ([[IN_USE, AVAILIBLE, AVAILIBLE, AVAILIBLE], [IN_USE, AVAILIBLE, AVAILIBLE, AVAILIBLE]],
            [(1, [(1, 0), (2, 0)])]) \<and>
   records_of [(1, [(1, 0), (2, 0)])] = [(1, 1, 1, 0), (1, 2, 2, 0)] \<and>
   separated two_users 1 1 2"
  using same_colour_beams_separated[OF two_users_solve, rule_format, of "(1, 1, 1, 0)" "(1, 2, 2, 0)"]
  by (simp add: run_scenario_def two_users_matrix two_users_solve records_of_def upt4)

lemma two_users_prefix:
  "solve_prefix two_users
     [[AVAILIBLE, AVAILIBLE, AVAILIBLE, AVAILIBLE], [AVAILIBLE, AVAILIBLE, AVAILIBLE, AVAILIBLE]] 2
     = Inr ([[IN_USE, AVAILIBLE, AVAILIBLE, AVAILIBLE], [IN_USE, AVAILIBLE, AVAILIBLE, AVAILIBLE]],
            [(1, [(1, 0), (2, 0)])])"
  using solve_as_prefix[of two_users
     "[[AVAILIBLE, AVAILIBLE, AVAILIBLE, AVAILIBLE], [AVAILIBLE, AVAILIBLE, AVAILIBLE, AVAILIBLE]]"]
  by (simp add: two_users_solve numeral_2_eq_2)

section \<open>Transitions of a cell\<close>

lemma matrix_step_refl: "matrix_step v v"
  unfolding matrix_step_def by (simp add: list_all2_refl cell_step_refl)

lemma matrix_step_trans:
  assumes "matrix_step a b" "matrix_step b c"
  shows "matrix_step a c"
proof -
  have row: "\<And>x y z. list_all2 cell_step x y \<Longrightarrow> list_all2 cell_step y z \<Longrightarrow> list_all2 cell_step x z"
    by (rule list_all2_trans[of cell_step cell_step cell_step]) (rule cell_step_trans)
  show ?thesis
    unfolding matrix_step_def
    by (rule list_all2_trans[OF row assms(1)[unfolded matrix_step_def] assms(2)[unfolded matrix_step_def]])
qed

lemma matrix_stepI:
  assumes "length v' = length v" "\<forall>i < length v. length (v' ! i) = length (v ! i)"
    "\<forall>i < length v. \<forall>j < length (v ! i). cell_step (v ! i ! j) (v' ! i ! j)"
  shows "matrix_step v v'"
  unfolding matrix_step_def using assms by (simp add: list_all2_conv_all_nth)

lemma schedule_user_step:
  assumes "schedule_user sc n i (v, sol) = Inr (v', sol')"
  shows "matrix_step v v'"
proof -
  from schedule_user_spec[OF assms] consider
    (none) "v' = v"
  | (some) j where "v ! i ! j = AVAILIBLE"
      "update_visibility v sc i (int (Suc (j div 4))) (j mod 4) (length (beams_of sol (Suc (j div 4)))) = Inr v'"
    by blast
  then show ?thesis
  proof cases
    case none
    then show ?thesis by (simp add: matrix_step_refl)
  next
    case some
    have av: "v ! i ! ((j div 4) * 4 + j mod 4) = AVAILIBLE" using some(1) by (simp add: block_index)
    have c: "j mod 4 < 4" by simp
    note f = update_visibility_facts[OF some(2) av c]
    show ?thesis by (rule matrix_stepI[OF f(3) f(4) f(5)])
  qed
qed

lemma solve_prefix_step:
  assumes "solve_prefix sc v k = Inr st"
  shows "matrix_step v (fst st)"
proof -
  from assms obtain row0 :: "BeamState list" where f: "fold_err (schedule_user sc (length row0)) [0..<k] (v, []) = Inr st"
    by (auto simp: solve_prefix_def split: sum.splits)
  have "matrix_step (fst (v, [] :: solution)) (fst st)"
  proof (rule fold_err_rel[where R = "\<lambda>(t :: matrix \<times> solution) t'. matrix_step (fst t) (fst t')", OF f])
    fix x t t' assume "schedule_user sc (length row0) x t = Inr t'"
    then show "matrix_step (fst t) (fst t')"
      using schedule_user_step[of sc "length row0" x "fst t" "snd t" "fst t'" "snd t'"] by simp
  qed (auto intro: matrix_step_refl matrix_step_trans)
  then show ?thesis by simp
qed

lemma py_norm_index_less: "py_norm_index n i = Inr j \<Longrightarrow> j < n"
  by (auto simp: py_norm_index_def Let_def split: if_splits)

lemma set_cell_Inr:
  assumes "set_cell v r c s = Inr v'"
  shows "\<exists>r' c'. r' < length v \<and> c' < length (v ! r') \<and> v' = v[r' := (v ! r')[c' := s]] \<and>
           py_norm_index (length v) r = Inr r' \<and> py_norm_index (length (v ! r')) c = Inr c'"
  using assms
  by (auto simp: set_cell_def py_set_def split: sum.splits dest: py_norm_index_less)

lemma build_rel_refl: "build_rel v v"
  unfolding build_rel_def by (simp add: list_all2_refl build_step_def)

lemma build_step_trans: "build_step a b \<Longrightarrow> build_step b c \<Longrightarrow> build_step a c"
  by (auto simp: build_step_def)

lemma build_rel_trans:
  assumes "build_rel a b" "build_rel b c"
  shows "build_rel a c"
proof -
  have row: "\<And>x y z. list_all2 build_step x y \<Longrightarrow> list_all2 build_step y z \<Longrightarrow> list_all2 build_step x z"
    by (rule list_all2_trans[of build_step build_step build_step]) (rule build_step_trans)
  show ?thesis
    unfolding build_rel_def
    by (rule list_all2_trans[OF row assms(1)[unfolded build_rel_def] assms(2)[unfolded build_rel_def]])
qed

lemma set_cell_build:
  assumes "set_cell v r c AVAILIBLE = Inr v'"
  shows "build_rel v v'"
proof -
  from set_cell_Inr[OF assms] obtain r' c' where
    r: "r' < length v" and c: "c' < length (v ! r')" and v': "v' = v[r' := (v ! r')[c' := AVAILIBLE]]"
    by blast
  show ?thesis
    unfolding build_rel_def v' list_all2_conv_all_nth
    using r c by (auto simp: nth_list_update build_step_def)
qed

lemma mark_available_build: "mark_available uid sid i v = Inr v' \<Longrightarrow> build_rel v v'"
  by (auto simp: mark_available_def split: sum.splits dest: set_cell_build)

lemma visit_pair_build:
  assumes "visit_pair sc u s v = Inr v'"
  shows "build_rel v v'"
proof -
  have "build_rel v v'" if "fold_err (mark_available (fst u) (fst s)) [0..<colors_per_satellite] v = Inr v'"
    by (rule fold_err_rel[where R = build_rel, OF that])
       (auto intro: mark_available_build build_rel_refl build_rel_trans)
  then show ?thesis
    using assms by (auto simp: visit_pair_def build_rel_refl split: sum.splits if_splits)
qed

lemma generate_build:
  assumes "generate_visibility_matrix sc = Inr m"
  shows "build_rel (initial_matrix sc) m"
proof -
  have inner: "build_rel v v'" if "fold_err (visit_pair sc u) (sats sc) v = Inr v'" for u v v'
    by (rule fold_err_rel[where R = build_rel, OF that])
       (auto intro: visit_pair_build build_rel_refl build_rel_trans)
  from assms have "fold_err (\<lambda>user. fold_err (visit_pair sc user) (sats sc)) (users sc) (initial_matrix sc) = Inr m"
    by (simp add: generate_visibility_matrix_def initial_matrix_def Let_def)
  then show ?thesis
    by (rule fold_err_rel[where R = build_rel]) (auto intro: inner build_rel_refl build_rel_trans)
qed

text \<open>
  Claim C6, as the code has it. While the solver runs, every iteration and every prefix of
  the run changes a cell only from \<open>AVAILIBLE\<close> to another state, so no cell returns to
  \<open>AVAILIBLE\<close>. The construction of the matrix, before the run, starts from cells that
  are all \<open>UNAVAILIBLE\<close> and changes a cell only by writing \<open>AVAILIBLE\<close> into it.
\<close>

theorem cells_only_leave_available:
  "(schedule_user sc n i (v, sol) = Inr (v', sol') \<longrightarrow> matrix_step v v') \<and>
   (solve_prefix sc v k = Inr st \<longrightarrow> matrix_step v (fst st)) \<and>
   (generate_visibility_matrix sc = Inr m \<longrightarrow> build_rel (initial_matrix sc) m)"
  using schedule_user_step[of sc n i v sol v' sol'] solve_prefix_step[of sc v k st]
    generate_build[of sc m]
  by blast

lemma two_users_first:
  "schedule_user two_users 4 0
     ([[AVAILIBLE, AVAILIBLE, AVAILIBLE, AVAILIBLE], [AVAILIBLE, AVAILIBLE, AVAILIBLE, AVAILIBLE]], [])
     = Inr ([[IN_USE, AVAILIBLE, AVAILIBLE, AVAILIBLE], [AVAILIBLE, AVAILIBLE, AVAILIBLE, AVAILIBLE]],
            [(1, [(1, 0)])])"
  by (simp add: two_users_def solver_defs two_users_angles not_close_rule str_small upt4)

theorem cells_only_leave_available_witness:
  "matrix_step
     [[AVAILIBLE, AVAILIBLE, AVAILIBLE, AVAILIBLE], [AVAILIBLE, AVAILIBLE, AVAILIBLE, AVAILIBLE]]
     [[IN_USE, AVAILIBLE, AVAILIBLE, AVAILIBLE], [AVAILIBLE, AVAILIBLE, AVAILIBLE, AVAILIBLE]] \<and>
   matrix_step
     [[AVAILIBLE, AVAILIBLE, AVAILIBLE, AVAILIBLE], [AVAILIBLE, AVAILIBLE, AVAILIBLE, AVAILIBLE]]
     [[IN_USE, AVAILIBLE, AVAILIBLE, AVAILIBLE], [IN_USE, AVAILIBLE, AVAILIBLE, AVAILIBLE]] \<and>
   build_rel (initial_matrix two_users)
     [[AVAILIBLE, AVAILIBLE, AVAILIBLE, AVAILIBLE], [AVAILIBLE, AVAILIBLE, AVAILIBLE, AVAILIBLE]]"
  using cells_only_leave_available[of two_users 4 0
      "[[AVAILIBLE, AVAILIBLE, AVAILIBLE, AVAILIBLE], [AVAILIBLE, AVAILIBLE, AVAILIBLE, AVAILIBLE]]" "[]"
      "[[IN_USE, AVAILIBLE, AVAILIBLE, AVAILIBLE], [AVAILIBLE, AVAILIBLE, AVAILIBLE, AVAILIBLE]]"
      "[(1, [(1, 0)])]" 2
      "([[IN_USE, AVAILIBLE, AVAILIBLE, AVAILIBLE], [IN_USE, AVAILIBLE, AVAILIBLE, AVAILIBLE]],
            [(1, [(1, 0), (2, 0)])])"
      "[[AVAILIBLE, AVAILIBLE, AVAILIBLE, AVAILIBLE], [AVAILIBLE, AVAILIBLE, AVAILIBLE, AVAILIBLE]]"]
    two_users_first two_users_prefix two_users_matrix
  by simp

text \<open>
  The claim as stated fails: it includes the construction of the matrix, which fills the
  matrix with \<open>UNAVAILIBLE\<close> and then writes \<open>AVAILIBLE\<close> into such cells, a transition
  from \<open>UNAVAILIBLE\<close> to \<open>AVAILIBLE\<close>.
\<close>

theorem construction_writes_available:
  "initial_matrix two_users
     = [[UNAVAILIBLE, UNAVAILIBLE, UNAVAILIBLE, UNAVAILIBLE],
        [UNAVAILIBLE, UNAVAILIBLE, UNAVAILIBLE, UNAVAILIBLE]] \<and>
   mark_available ''1'' ''1'' 0 (initial_matrix two_users)
     = Inr [[AVAILIBLE, UNAVAILIBLE, UNAVAILIBLE, UNAVAILIBLE],
            [UNAVAILIBLE, UNAVAILIBLE, UNAVAILIBLE, UNAVAILIBLE]] \<and>
   generate_visibility_matrix two_users
     = Inr [[AVAILIBLE, AVAILIBLE, AVAILIBLE, AVAILIBLE], [AVAILIBLE, AVAILIBLE, AVAILIBLE, AVAILIBLE]] \<and>
   \<not> cell_step UNAVAILIBLE AVAILIBLE \<and>
   \<not> matrix_step (initial_matrix two_users)
       [[AVAILIBLE, AVAILIBLE, AVAILIBLE, AVAILIBLE], [AVAILIBLE, AVAILIBLE, AVAILIBLE, AVAILIBLE]]"
  using two_users_matrix
  by (simp add: initial_matrix_def two_users_def colors_per_satellite_def
        replicate_4 numeral_2_eq_2 mark_available_def py_int_small set_cell_def py_set_def
        py_norm_index_def matrix_step_def cell_step_def)

section \<open>First fit, one beam per user\<close>

lemma schedule_user_none:
  assumes i: "i < length v" and n: "n \<le> length (v ! i)" and no: "\<forall>j < n. v ! i ! j \<noteq> AVAILIBLE"
  shows "schedule_user sc n i (v, sol) = Inr (v, sol)"
proof -
  from find_available_total[OF n, of 0] obtain r where r: "find_available (v ! i) [0..<n] = Inr r"
    by blast
  have "r = None"
  proof (cases r)
    case (Some j)
    then show ?thesis using find_available_spec[OF r] no by auto
  qed simp
  then show ?thesis using i r by (simp add: schedule_user_def py_get_nat)
qed

lemma records_for_snoc:
  "records_for k (bs @ [x]) = records_for k bs @ [(k, length bs + 1, fst x, snd x)]"
  by (simp add: records_for_def nth_append)

lemma records_of_update:
  "\<exists>A B. records_of sol = A @ records_for k (beams_of sol k) @ B \<and>
         (\<forall>bs'. records_of (AList.update k bs' sol) = A @ records_for k bs' @ B)"
proof (induction sol)
  case Nil
  show ?case
    by (rule exI[of _ "[]"], rule exI[of _ "[]"])
       (simp add: records_of_Nil records_of_Cons beams_of_def records_for_def)
next
  case (Cons p sol)
  obtain k' bs where p: "p = (k', bs)" by (cases p)
  show ?case
  proof (cases "k' = k")
    case True
    show ?thesis
      by (rule exI[of _ "[]"], rule exI[of _ "records_of sol"])
         (simp add: p True records_of_Cons beams_of_def)
  next
    case False
    from Cons obtain A B where ab: "records_of sol = A @ records_for k (beams_of sol k) @ B"
      "\<forall>bs'. records_of (AList.update k bs' sol) = A @ records_for k bs' @ B" by blast
    show ?thesis
      by (rule exI[of _ "records_for k' bs @ A"], rule exI[of _ B])
         (use False ab in \<open>simp add: p records_of_Cons beams_of_def\<close>)
  qed
qed

lemma schedule_user_first:
  assumes st: "schedule_user sc n i (v, sol) = Inr (v', sol')"
    and j: "j < n" "j < length (v ! i)" "v ! i ! j = AVAILIBLE" "\<forall>x < j. v ! i ! x \<noteq> AVAILIBLE"
  shows "v' ! i ! j = IN_USE"
    and "sol' = AList.update (j div 4 + 1) (beams_of sol (j div 4 + 1) @ [(i + 1, j mod 4)]) sol"
    and "\<exists>A B. records_of sol = A @ B \<and>
           records_of sol' = A @ [(j div 4 + 1, length (beams_of sol' (j div 4 + 1)), i + 1, j mod 4)] @ B"
proof -
  from schedule_user_spec[OF st] j obtain j' where
    j': "j' < n" "j' < length (v ! i)" "v ! i ! j' = AVAILIBLE" "\<forall>x < j'. v ! i ! x \<noteq> AVAILIBLE"
    and sol': "sol' = AList.update (Suc (j' div 4)) (beams_of sol (Suc (j' div 4)) @ [(Suc i, j' mod 4)]) sol"
    and uv: "update_visibility v sc i (int (Suc (j' div 4))) (j' mod 4) (length (beams_of sol (Suc (j' div 4)))) = Inr v'"
    by blast
  have e: "j' = j"
  proof (rule ccontr)
    assume "j' \<noteq> j"
    then consider "j' < j" | "j < j'" by linarith
    then show False using j j' by cases auto
  qed
  have av: "v ! i ! ((j div 4) * 4 + j mod 4) = AVAILIBLE" using j(3) by (simp add: block_index)
  have c: "j mod 4 < 4" by simp
  note f = update_visibility_facts[OF uv[unfolded e] av c]
  show "v' ! i ! j = IN_USE" using f(9) by (simp add: block_index)
  show s: "sol' = AList.update (j div 4 + 1) (beams_of sol (j div 4 + 1) @ [(i + 1, j mod 4)]) sol"
    using sol' e by simp
  from records_of_update[of sol "j div 4 + 1"] obtain A B where
    ab: "records_of sol = A @ records_for (j div 4 + 1) (beams_of sol (j div 4 + 1)) @ B"
    "\<forall>bs'. records_of (AList.update (j div 4 + 1) bs' sol) = A @ records_for (j div 4 + 1) bs' @ B"
    by blast
  have len: "length (beams_of sol' (j div 4 + 1)) = length (beams_of sol (j div 4 + 1)) + 1"
    unfolding s by (simp add: beams_of_update)
  show "\<exists>A B. records_of sol = A @ B \<and>
           records_of sol' = A @ [(j div 4 + 1, length (beams_of sol' (j div 4 + 1)), i + 1, j mod 4)] @ B"
    apply (rule exI[of _ "A @ records_for (j div 4 + 1) (beams_of sol (j div 4 + 1))"])
    apply (rule exI[of _ B])
    using ab len unfolding s by (simp add: records_for_snoc)
qed




section \<open>The solver does not fail on a ready matrix\<close>

lemma fold_err_upt_total:
  assumes "P 0 s"
    and step: "\<And>i t. i < n \<Longrightarrow> P i t \<Longrightarrow> \<exists>t'. f i t = Inr t' \<and> P (Suc i) t'"
  shows "\<exists>s'. fold_err f [0..<n] s = Inr s' \<and> P n s'"
  using step
proof (induction n)
  case 0
  then show ?case using assms(1) by simp
next
  case (Suc n)
  from Suc.IH Suc.prems obtain t where t: "fold_err f [0..<n] s = Inr t" "P n t"
    by (metis less_Suc_eq)
  from Suc.prems[of n t] t(2) obtain t' where "f n t = Inr t'" "P (Suc n) t'" by auto
  then show ?case using t(1) by (simp add: fold_err_append)
qed

lemma for_rows_total:
  assumes "\<And>i. i < length v \<Longrightarrow> \<exists>r. body i (v ! i) = Inr r"
  shows "\<exists>w. for_rows body v = Inr w"
proof -
  let ?f = "\<lambda>user_i w. case body user_i (w ! user_i) of Inl e \<Rightarrow> Inl e | Inr user \<Rightarrow> Inr (w[user_i := user])"
  let ?P = "\<lambda>k w. length w = length v \<and> (\<forall>i. k \<le> i \<longrightarrow> w ! i = v ! i)"
  have "\<exists>s'. fold_err ?f [0..<length v] v = Inr s' \<and> ?P (length v) s'"
  proof (rule fold_err_upt_total[where P = ?P])
    show "?P 0 v" by simp
  next
    fix i t assume i: "i < length v" and P: "?P i t"
    from assms[OF i] obtain r where r: "body i (v ! i) = Inr r" by blast
    have "t ! i = v ! i" using P by simp
    then have "?f i t = Inr (t[i := r])" using r by simp
    moreover have "?P (Suc i) (t[i := r])" using P by simp
    ultimately show "\<exists>t'. ?f i t = Inr t' \<and> ?P (Suc i) t'" by blast
  qed
  then show ?thesis by (auto simp: for_rows_def)
qed

lemma mark_cells_total:
  "b + n \<le> length row \<Longrightarrow>
     \<exists>row'. fold_err mark_full_cell (map (\<lambda>k. int b + int k) [0..<n]) row = Inr row'"
proof (induction n)
  case 0
  then show ?case by simp
next
  case (Suc n)
  then obtain r where r: "fold_err mark_full_cell (map (\<lambda>k. int b + int k) [0..<n]) row = Inr r"
    by auto
  have len: "length r = length row" using mark_cells_spec[OF r] by simp
  have e: "int b + int n = int (b + n)" by simp
  have "\<exists>row'. mark_full_cell (int (b + n)) r = Inr row'"
    using Suc.prems len by (simp add: mark_full_cell_nat del: of_nat_add)
  then show ?case using r by (auto simp: fold_err_append e simp del: of_nat_add)
qed

lemma mark_full_row_total:
  "b + 4 \<le> length row \<Longrightarrow> \<exists>row'. mark_full_row (int b) row = Inr row'"
  using mark_cells_total[of b 4 row] by (simp add: mark_full_row_def colors_per_satellite_def)

lemma angle_defined: "a \<noteq> v \<Longrightarrow> b \<noteq> v \<Longrightarrow> \<exists>x. calculate_angle_degrees v a b = Inr x"
  using calculate_angle_degrees_fails_iff[of v a b]
  by (cases "calculate_angle_degrees v a b") auto

lemma update_row_total:
  assumes "full \<Longrightarrow> b + 4 \<le> length row"
    and "\<not> full \<Longrightarrow> k < length row"
    and "\<not> full \<Longrightarrow> row ! k = AVAILIBLE \<Longrightarrow>
           \<exists>up sp. dict_get (users sc) (str (int i + 1)) = Inr up \<and>
                   dict_get (sats sc) (str sid) = Inr sp \<and> up \<noteq> sp \<and> tp \<noteq> sp"
  shows "\<exists>row'. update_row sc tp full sid (int b) (int k) i row = Inr row'"
proof (cases full)
  case True
  then show ?thesis using assms(1) mark_full_row_total[of b row] by (simp add: update_row_def)
next
  case False
  note k = assms(2)[OF False]
  show ?thesis
  proof (cases "row ! k = AVAILIBLE")
    case nav: False
    then show ?thesis using False k by (simp add: update_row_def py_get_nat)
  next
    case True
    from assms(3)[OF False True] obtain up sp where
      l: "dict_get (users sc) (str (int i + 1)) = Inr up" "dict_get (sats sc) (str sid) = Inr sp"
      and ne: "up \<noteq> sp" "tp \<noteq> sp" by blast
    from angle_defined[OF ne(2) ne(1)] obtain x where "calculate_angle_degrees sp tp up = Inr x"
      by blast
    then show ?thesis using False True k l
      by (simp add: update_row_def py_get_nat py_set_nat)
  qed
qed

lemma update_visibility_total:
  assumes t: "t < length v" and k: "s * 4 + c < length (v ! t)"
    and tp: "dict_get (users sc) (str (int t + 1)) = Inr tp"
    and full: "b = 31 \<Longrightarrow> \<forall>i < length v. s * 4 + 4 \<le> length (v ! i)"
    and part: "b \<noteq> 31 \<Longrightarrow> \<forall>i < length v. s * 4 + c < length (v ! i) \<and>
                 (\<exists>up sp. dict_get (users sc) (str (int i + 1)) = Inr up \<and>
                    dict_get (sats sc) (str (int (Suc s))) = Inr sp \<and> up \<noteq> sp \<and> tp \<noteq> sp)"
  shows "\<exists>v'. update_visibility v sc t (int (Suc s)) c b = Inr v'"
proof -
  let ?v1 = "v[t := (v ! t)[s * 4 + c := IN_USE]]"
  have l1: "\<And>i. i < length v \<Longrightarrow> length (?v1 ! i) = length (v ! i)"
    using t by (simp add: nth_list_update)
  have rows: "\<exists>r. update_row sc tp (b = 31) (int (Suc s)) (int (s * 4)) (int (s * 4 + c)) i (?v1 ! i) = Inr r"
    if i: "i < length ?v1" for i
  proof (rule update_row_total)
    assume "b = 31"
    then show "s * 4 + 4 \<le> length (?v1 ! i)" using full i l1 by simp
  next
    assume "\<not> b = 31"
    then show "s * 4 + c < length (?v1 ! i)" using part i l1 by simp
  next
    assume "\<not> b = 31"
    then show "\<exists>up sp. dict_get (users sc) (str (int i + 1)) = Inr up \<and>
                   dict_get (sats sc) (str (int (Suc s))) = Inr sp \<and> up \<noteq> sp \<and> tp \<noteq> sp"
      using part i by simp
  qed
  from for_rows_total[where v = ?v1 and
      body = "update_row sc tp (b = 31) (int (Suc s)) (int (s * 4)) (int (s * 4 + c))", OF rows]
  obtain w where
    w: "for_rows (update_row sc tp (b = 31) (int (Suc s)) (int (s * 4)) (int (s * 4 + c))) ?v1 = Inr w"
    by blast
  have "v \<noteq> []" using t by auto
  then have g0: "py_get ?v1 0 = Inr (?v1 ! 0)" using py_get_nat[of ?v1 0] by simp
  show ?thesis
    unfolding update_visibility_Suc set_cell_nat using t k tp w g0 by simp
qed

lemma solver_ready_row: "solver_ready sc m v \<Longrightarrow> i < length v \<Longrightarrow> length (v ! i) = m * 4"
  by (simp add: solver_ready_def colors_per_satellite_def)

lemma schedule_user_total:
  assumes r: "solver_ready sc m v" and i: "i < length v"
  shows "\<exists>st. schedule_user sc (m * 4) i (v, sol) = Inr st"
proof -
  have len: "\<And>x. x < length v \<Longrightarrow> length (v ! x) = m * 4" using r by (rule solver_ready_row)
  from find_available_total[of "m * 4" "v ! i" 0] len[OF i] obtain fa where
    fa: "find_available (v ! i) [0..<m * 4] = Inr fa" by auto
  show ?thesis
  proof (cases fa)
    case None
    then show ?thesis using fa i by (simp add: schedule_user_def py_get_nat)
  next
    case (Some j)
    with find_available_spec[OF fa] have j: "j < m * 4" "v ! i ! j = AVAILIBLE" by auto
    define s where "s = j div 4"
    define c where "c = j mod 4"
    have sc': "s * 4 + c = j" "c < 4" "s < m" using j(1) unfolding s_def c_def by presburger+
    from r i sc'(3) obtain tp sp0 where tp: "dict_get (users sc) (str (int i + 1)) = Inr tp"
      and sp0: "dict_get (sats sc) (str (int s + 1)) = Inr sp0" "tp \<noteq> sp0"
      unfolding solver_ready_def by blast
    have "\<exists>v'. update_visibility v sc i (int (Suc s)) c b = Inr v'" for b
    proof (rule update_visibility_total[OF i _ tp])
      show "s * 4 + c < length (v ! i)" using len[OF i] sc' j by simp
    next
      assume "b = 31"
      show "\<forall>x < length v. s * 4 + 4 \<le> length (v ! x)" using len sc'(3) by auto
    next
      assume "b \<noteq> 31"
      show "\<forall>x < length v. s * 4 + c < length (v ! x) \<and>
                 (\<exists>up sp. dict_get (users sc) (str (int x + 1)) = Inr up \<and>
                    dict_get (sats sc) (str (int (Suc s))) = Inr sp \<and> up \<noteq> sp \<and> tp \<noteq> sp)"
      proof (intro allI impI conjI)
        fix x assume x: "x < length v"
        show "s * 4 + c < length (v ! x)" using len[OF x] sc' j by simp
        from r x sc'(3) obtain up sp where "dict_get (users sc) (str (int x + 1)) = Inr up"
          "dict_get (sats sc) (str (int s + 1)) = Inr sp" "up \<noteq> sp"
          unfolding solver_ready_def by blast
        then show "\<exists>up sp. dict_get (users sc) (str (int x + 1)) = Inr up \<and>
                    dict_get (sats sc) (str (int (Suc s))) = Inr sp \<and> up \<noteq> sp \<and> tp \<noteq> sp"
          using sp0 by (auto simp: add.commute)
      qed
    qed
    then obtain v' where
      "update_visibility v sc i (int (Suc s)) c
         (length (beams_of (AList.update (Suc s) (beams_of sol (Suc s) @ [(Suc i, c)]) sol) (Suc s)) - 1)
       = Inr v'" by blast
    then have "assign_beam sc i j (v, sol)
                 = Inr (v', AList.update (Suc s) (beams_of sol (Suc s) @ [(Suc i, c)]) sol)"
      by (simp add: assign_beam_def Let_def colors_per_satellite_def s_def c_def)
    then show ?thesis using fa Some i by (simp add: schedule_user_def py_get_nat)
  qed
qed

lemma solver_ready_step:
  assumes "solver_ready sc m v" "matrix_step v v'"
  shows "solver_ready sc m v'"
proof -
  from assms(2) have l: "length v' = length v" and rl: "\<forall>i < length v. length (v' ! i) = length (v ! i)"
    unfolding matrix_step_def by (auto simp: list_all2_conv_all_nth)
  have "\<forall>row \<in> set v'. length row = m * colors_per_satellite"
  proof
    fix row assume "row \<in> set v'"
    then obtain i where "i < length v'" "row = v' ! i" by (auto simp: in_set_conv_nth)
    then show "length row = m * colors_per_satellite"
      using assms(1) l rl by (simp add: solver_ready_def)
  qed
  moreover have "v' \<noteq> []" using assms(1) l by (auto simp: solver_ready_def)
  ultimately show ?thesis using assms(1) l by (simp add: solver_ready_def)
qed

lemma solve_prefix_total:
  assumes r: "solver_ready sc m v" and k: "k \<le> length v"
  shows "\<exists>st. solve_prefix sc v k = Inr st"
proof -
  from r have ne: "v \<noteq> []" by (simp add: solver_ready_def)
  then have g0: "py_get v 0 = Inr (v ! 0)" using py_get_nat[of v 0] by simp
  have l0: "length (v ! 0) = m * 4" using solver_ready_row[OF r, of 0] ne by simp
  let ?P = "\<lambda>(i::nat) (t :: matrix \<times> solution). solver_ready sc m (fst t) \<and> length (fst t) = length v"
  have "\<exists>s'. fold_err (schedule_user sc (m * 4)) [0..<k] (v, []) = Inr s' \<and> ?P k s'"
  proof (rule fold_err_upt_total[where P = ?P])
    show "?P 0 (v, [])" using r by simp
  next
    fix i t assume i: "i < k" and P: "?P i t"
    then have il: "i < length (fst t)" using k by simp
    from schedule_user_total[OF conjunct1[OF P] il, of "snd t"] obtain t' where
      t': "schedule_user sc (m * 4) i t = Inr t'" by auto
    have ms: "matrix_step (fst t) (fst t')"
      using schedule_user_step[of sc "m * 4" i "fst t" "snd t" "fst t'" "snd t'"] t' by simp
    then have "length (fst t') = length (fst t)"
      unfolding matrix_step_def by (simp add: list_all2_lengthD)
    then show "\<exists>t'. schedule_user sc (m * 4) i t = Inr t' \<and> ?P (Suc i) t'"
      using t' solver_ready_step[OF conjunct1[OF P] ms] P by auto
  qed
  then show ?thesis by (auto simp: solve_prefix_def g0 l0)
qed

section \<open>First fit on a ready matrix\<close>





section \<open>A run that saturates a satellite\<close>

lemma schedule_user_first_propagation:
  assumes st: "schedule_user sc n i (v, sol) = Inr (v', sol')"
    and j: "j < n" "j < length (v ! i)" "v ! i ! j = AVAILIBLE" "\<forall>x < j. v ! i ! x \<noteq> AVAILIBLE"
  shows "update_visibility v sc i (int (Suc (j div 4))) (j mod 4)
           (length (beams_of sol (Suc (j div 4)))) = Inr v'"
proof -
  from schedule_user_spec[OF st] j obtain j' where
    j': "j' < n" "j' < length (v ! i)" "v ! i ! j' = AVAILIBLE" "\<forall>x < j'. v ! i ! x \<noteq> AVAILIBLE"
    and uv: "update_visibility v sc i (int (Suc (j' div 4))) (j' mod 4) (length (beams_of sol (Suc (j' div 4)))) = Inr v'"
    by blast
  have e: "j' = j"
  proof (rule ccontr)
    assume "j' \<noteq> j"
    then consider "j' < j" | "j < j'" by linarith
    then show False using j j' by cases auto
  qed
  show ?thesis using uv unfolding e .
qed

lemma update_visibility_full:
  assumes t: "t < length v" and c: "c < 4"
    and tp: "dict_get (users sc) (str (int t + 1)) = Inr tp"
    and rows: "\<forall>i < length v. s * 4 + 4 \<le> length (v ! i)"
  shows "\<exists>w. update_visibility v sc t (int (Suc s)) c 31 = Inr w \<and> length w = length v \<and>
           (\<forall>i < length v. length (w ! i) = length (v ! i) \<and>
              (\<forall>j < length (v ! i).
                 w ! i ! j = (if i = t \<and> j = s * 4 + c then IN_USE
                              else if s * 4 \<le> j \<and> j < s * 4 + 4 \<and> v ! i ! j = AVAILIBLE
                                   then UNAVAILIBLE else v ! i ! j)))"
proof -
  let ?k = "s * 4 + c"
  let ?v1 = "v[t := (v ! t)[?k := IN_USE]]"
  have k: "?k < length (v ! t)" using rows t c by (auto dest!: spec[of _ t])
  from update_visibility_total[OF t k tp, of 31] rows obtain w where
    uv: "update_visibility v sc t (int (Suc s)) c 31 = Inr w" by auto
  from update_visibility_spec[OF uv] tp have len: "length w = length v"
    and ur: "\<forall>i < length v. update_row sc tp True (int (Suc s)) (int (s * 4)) (int ?k) i (?v1 ! i) = Inr (w ! i)"
    by auto
  have row: "length (w ! i) = length (v ! i) \<and>
              (\<forall>j < length (v ! i).
                 w ! i ! j = (if i = t \<and> j = s * 4 + c then IN_USE
                              else if s * 4 \<le> j \<and> j < s * 4 + 4 \<and> v ! i ! j = AVAILIBLE
                                   then UNAVAILIBLE else v ! i ! j))" if i: "i < length v" for i
  proof -
    from ur i have "update_row sc tp True (int (Suc s)) (int (s * 4)) (int ?k) i (?v1 ! i) = Inr (w ! i)"
      by simp
    note f = update_row_full[OF this]
    have l1: "length (?v1 ! i) = length (v ! i)" using t by (simp add: nth_list_update)
    show ?thesis using f l1 t k c i by (auto simp: nth_list_update)
  qed
  show ?thesis using uv len row by blast
qed

lemma schedule_user_saturates:
  assumes r: "solver_ready sc m v" and i: "i < length v" and jm: "j < m * 4"
    and j: "v ! i ! j = AVAILIBLE" "\<forall>x < j. v ! i ! x \<noteq> AVAILIBLE"
    and b: "length (beams_of sol (j div 4 + 1)) = 31"
  shows "\<exists>w sol'. schedule_user sc (m * 4) i (v, sol) = Inr (w, sol') \<and>
           length (beams_of sol' (j div 4 + 1)) = 32 \<and>
           (\<forall>u < length w. \<forall>x < length (w ! u).
              (j div 4) * 4 \<le> x \<and> x < (j div 4) * 4 + 4 \<longrightarrow> w ! u ! x \<noteq> AVAILIBLE)"
proof -
  from schedule_user_total[OF r i, of sol] obtain w sol' where
    st: "schedule_user sc (m * 4) i (v, sol) = Inr (w, sol')" by (metis surj_pair)
  have jl: "j < length (v ! i)" using solver_ready_row[OF r i] jm by simp
  note f = schedule_user_first[OF st jm jl j]
  have uv: "update_visibility v sc i (int (Suc (j div 4))) (j mod 4) 31 = Inr w"
    using schedule_user_first_propagation[OF st jm jl j] b by simp
  have av: "v ! i ! ((j div 4) * 4 + j mod 4) = AVAILIBLE" using j(1) by (simp add: block_index)
  note g = update_visibility_facts[OF uv av]
  have "length (beams_of sol' (j div 4 + 1)) = 32"
    unfolding f(2) using b by (simp add: beams_of_update)
  moreover have "\<forall>u < length w. \<forall>x < length (w ! u).
              (j div 4) * 4 \<le> x \<and> x < (j div 4) * 4 + 4 \<longrightarrow> w ! u ! x \<noteq> AVAILIBLE"
    using g(3) g(7) by simp
  ultimately show ?thesis using st by blast
qed


lemma sphere_angle:
  "ax\<^sup>2 + ay\<^sup>2 + az\<^sup>2 = 25 \<Longrightarrow> bx\<^sup>2 + by\<^sup>2 + bz\<^sup>2 = 25 \<Longrightarrow>
   calculate_angle_degrees (Vector3 0 0 0) (Vector3 ax ay az) (Vector3 bx by bz)
     = Inr (degrees (arccos (min 1 (max (- 1) ((ax * bx + ay * by + az * bz) / 25)))))"
  by (simp add: calculate_angle_degrees_def Let_def sqrt_25 add_divide_distrib)

lemma str_upto_33: "str 1 = ''1''" "str 2 = ''2''" "str 3 = ''3''" "str 4 = ''4''" "str 5 = ''5''" "str 6 = ''6''" "str 7 = ''7''" "str 8 = ''8''" "str 9 = ''9''" "str 10 = ''10''" "str 11 = ''11''" "str 12 = ''12''" "str 13 = ''13''" "str 14 = ''14''" "str 15 = ''15''" "str 16 = ''16''" "str 17 = ''17''" "str 18 = ''18''" "str 19 = ''19''" "str 20 = ''20''" "str 21 = ''21''" "str 22 = ''22''" "str 23 = ''23''" "str 24 = ''24''" "str 25 = ''25''" "str 26 = ''26''" "str 27 = ''27''" "str 28 = ''28''" "str 29 = ''29''" "str 30 = ''30''" "str 31 = ''31''" "str 32 = ''32''" "str 33 = ''33''"
  by code_simp+

lemma upt_33:
  "[0..<33] = [0, 1, 2, 3, 4, 5, 6, 7, 8, 9, 10, 11, 12, 13, 14, 15, 16, 17, 18, 19, 20, 21, 22,
               23, 24, 25, 26, 27, 28, 29, 30, 31, 32]"
  by code_simp

lemma deg_special: "(degrees pi < self_interference_max) = False"
  "(degrees (pi / 2) < self_interference_max) = False"
  using pi_gt_zero by (simp_all add: degrees_def self_interference_max_def)

lemma less_9: "(g::nat) < 9 \<longleftrightarrow> g = 0 \<or> g = 1 \<or> g = 2 \<or> g = 3 \<or> g = 4 \<or> g = 5 \<or> g = 6 \<or> g = 7 \<or> g = 8"
  by presburger

lemma less_33: "(i::nat) < 33 \<longleftrightarrow> i \<in> set [0..<33]"
  by simp

lemma crowd_pos_nonzero: "g < 9 \<Longrightarrow> crowd_pos g \<noteq> Vector3 0 0 0"
  unfolding less_9 by (auto simp: crowd_pos_def)

lemma crowd_angles:
  assumes "g < 9" "h < 9" "g \<noteq> h"
  shows "\<exists>a. calculate_angle_degrees (Vector3 0 0 0) (crowd_pos g) (crowd_pos h) = Inr a \<and>
             \<not> a < self_interference_max"
  using assms unfolding less_9
  by (elim disjE; simp add: crowd_pos_def sphere_angle not_close_rule deg_special)

lemma crowd_users: "dict_get (users crowd) ''1'' = Inr (crowd_pos 0)" "dict_get (users crowd) ''2'' = Inr (crowd_pos 0)" "dict_get (users crowd) ''3'' = Inr (crowd_pos 0)" "dict_get (users crowd) ''4'' = Inr (crowd_pos 0)" "dict_get (users crowd) ''5'' = Inr (crowd_pos 1)" "dict_get (users crowd) ''6'' = Inr (crowd_pos 1)" "dict_get (users crowd) ''7'' = Inr (crowd_pos 1)" "dict_get (users crowd) ''8'' = Inr (crowd_pos 1)" "dict_get (users crowd) ''9'' = Inr (crowd_pos 2)" "dict_get (users crowd) ''10'' = Inr (crowd_pos 2)" "dict_get (users crowd) ''11'' = Inr (crowd_pos 2)" "dict_get (users crowd) ''12'' = Inr (crowd_pos 2)" "dict_get (users crowd) ''13'' = Inr (crowd_pos 3)" "dict_get (users crowd) ''14'' = Inr (crowd_pos 3)" "dict_get (users crowd) ''15'' = Inr (crowd_pos 3)" "dict_get (users crowd) ''16'' = Inr (crowd_pos 3)" "dict_get (users crowd) ''17'' = Inr (crowd_pos 4)" "dict_get (users crowd) ''18'' = Inr (crowd_pos 4)" "dict_get (users crowd) ''19'' = Inr (crowd_pos 4)" "dict_get (users crowd) ''20'' = Inr (crowd_pos 4)" "dict_get (users crowd) ''21'' = Inr (crowd_pos 5)" "dict_get (users crowd) ''22'' = Inr (crowd_pos 5)" "dict_get (users crowd) ''23'' = Inr (crowd_pos 5)" "dict_get (users crowd) ''24'' = Inr (crowd_pos 5)" "dict_get (users crowd) ''25'' = Inr (crowd_pos 6)" "dict_get (users crowd) ''26'' = Inr (crowd_pos 6)" "dict_get (users crowd) ''27'' = Inr (crowd_pos 6)" "dict_get (users crowd) ''28'' = Inr (crowd_pos 6)" "dict_get (users crowd) ''29'' = Inr (crowd_pos 7)" "dict_get (users crowd) ''30'' = Inr (crowd_pos 7)" "dict_get (users crowd) ''31'' = Inr (crowd_pos 7)" "dict_get (users crowd) ''32'' = Inr (crowd_pos 7)" "dict_get (users crowd) ''33'' = Inr (crowd_pos 8)"
  by (simp_all add: crowd_def dict_get_def crowd_pos_def)

lemma crowd_lookup:
  assumes "i < 33"
  shows "dict_get (users crowd) (str (int i + 1)) = Inr (crowd_pos (i div 4))"
  using assms unfolding less_33 upt_33
  by (auto simp: str_upto_33 crowd_users)

lemma crowd_sat: "dict_get (sats crowd) (str (int (Suc 0))) = Inr (Vector3 0 0 0)"
  by (simp add: crowd_def dict_get_def str_small)



lemma crowd_state_length: "length (crowd_state k) = 33"
  by (simp add: crowd_state_def)

lemma crowd_state_row:
  "u < 33 \<Longrightarrow> crowd_state k ! u = (replicate 4 UNAVAILIBLE)[u mod 4 := crowd_cell k u]"
  unfolding crowd_state_def by (simp del: upt_Suc replicate.simps add: nth_map_upt)

lemma crowd_state_nth:
  "u < 33 \<Longrightarrow> j < 4 \<Longrightarrow>
   crowd_state k ! u ! j = (if j = u mod 4 then crowd_cell k u else UNAVAILIBLE)"
  by (simp add: crowd_state_row nth_list_update del: replicate.simps)

lemma crowd_state_row_length: "u < 33 \<Longrightarrow> length (crowd_state k ! u) = 4"
  by (simp add: crowd_state_row del: replicate.simps)

lemma crowd_ready: "solver_ready crowd 1 (crowd_state k)"
proof -
  have "crowd_state k \<noteq> []" using crowd_state_length[of k] by auto
  moreover have "\<forall>row \<in> set (crowd_state k). length row = 1 * colors_per_satellite"
    by (auto simp: crowd_state_def colors_per_satellite_def simp del: upt_Suc replicate.simps)
  moreover have "\<exists>user_pos sat_pos.
                  dict_get (users crowd) (str (int i + 1)) = Inr user_pos \<and>
                  dict_get (sats crowd) (str (int s + 1)) = Inr sat_pos \<and> user_pos \<noteq> sat_pos"
    if "i < length (crowd_state k)" "s < 1" for i s
  proof -
    from that have i: "i < 33" and s: "s = 0" by (simp_all add: crowd_state_length)
    have "i div 4 < 9" using i by simp
    then show ?thesis using crowd_lookup[OF i] crowd_sat crowd_pos_nonzero[of "i div 4"] s by simp
  qed
  ultimately show ?thesis unfolding solver_ready_def by blast
qed

lemma crowd_sol_beams: "beams_of (crowd_sol k) (Suc 0) = map (\<lambda>i. (Suc i, i mod 4)) [0..<k]"
  by (auto simp: crowd_sol_def beams_of_def)

lemma crowd_sol_Suc:
  "AList.update (Suc 0) (beams_of (crowd_sol k) (Suc 0) @ [(Suc k, k mod 4)]) (crowd_sol k)
     = crowd_sol (Suc k)"
  unfolding crowd_sol_beams by (simp add: crowd_sol_def)

lemma crowd_step:
  assumes k: "k < 32"
  shows "schedule_user crowd 4 k (crowd_state k, crowd_sol k)
           = Inr (crowd_state (Suc k), crowd_sol (Suc k))"
proof -
  let ?v = "crowd_state k"
  let ?c = "k mod 4"
  have k33: "k < 33" using k by simp
  from schedule_user_total[OF crowd_ready, of k k "crowd_sol k"] obtain w sol' where
    st: "schedule_user crowd 4 k (?v, crowd_sol k) = Inr (w, sol')"
    using k33 by (auto simp: crowd_state_length)
  have j: "?c < 4" "?c < length (?v ! k)" "?v ! k ! ?c = AVAILIBLE" "\<forall>x < ?c. ?v ! k ! x \<noteq> AVAILIBLE"
    using k by (auto simp: crowd_state_row_length crowd_state_nth crowd_cell_def)
  have d: "?c div 4 = 0" "?c mod 4 = ?c" by simp_all
  have sol': "sol' = crowd_sol (Suc k)"
    using schedule_user_first(2)[OF st j] unfolding d by (simp add: crowd_sol_Suc)
  have uv: "update_visibility ?v crowd k (int (Suc 0)) ?c k = Inr w"
    using schedule_user_first_propagation[OF st j] unfolding d by (simp add: crowd_sol_beams)
  let ?v1 = "?v[k := (?v ! k)[0 * 4 + ?c := IN_USE]]"
  from update_visibility_spec[OF uv] crowd_lookup[OF k33] have len: "length w = 33"
    and ur: "\<forall>i < 33. update_row crowd (crowd_pos (k div 4)) (k = 31) (int (Suc 0)) (int (0 * 4))
                (int (0 * 4 + ?c)) i (?v1 ! i) = Inr (w ! i)"
    by (auto simp: crowd_state_length)
  have v1k: "?v1 ! k = (replicate 4 UNAVAILIBLE)[?c := IN_USE]"
    using k33 by (simp add: crowd_state_length crowd_state_row del: replicate.simps)
  have v1o: "?v1 ! i = ?v ! i" if "i \<noteq> k" for i using that by simp
  have new_k: "crowd_state (Suc k) ! k = (replicate 4 UNAVAILIBLE)[?c := IN_USE]"
    using k33 by (simp add: crowd_state_row crowd_cell_def del: replicate.simps)
  have row: "w ! i = crowd_state (Suc k) ! i" if i: "i < 33" for i
  proof (cases "k = 31")
    case True
    from ur i True have "update_row crowd (crowd_pos (k div 4)) True (int (Suc 0)) (int (0 * 4))
                (int (0 * 4 + ?c)) i (?v1 ! i) = Inr (w ! i)" by simp
    note f = update_row_full[OF this]
    have l1: "length (?v1 ! i) = 4"
      using i k33 by (cases "i = k") (simp_all add: crowd_state_length crowd_state_row_length)
    have "w ! i ! x = crowd_state (Suc k) ! i ! x" if x: "x < 4" for x
    proof (cases "i = k")
      case True
      then show ?thesis using f l1 x v1k new_k by (auto simp: nth_list_update simp del: replicate.simps)
    next
      case False
      then show ?thesis using f l1 x v1o[OF False] i \<open>k = 31\<close>
        by (auto simp: crowd_state_nth crowd_cell_def)
    qed
    then show ?thesis using f l1 i by (simp add: list_eq_iff_nth_eq crowd_state_row_length)
  next
    case False
    from ur i False have "update_row crowd (crowd_pos (k div 4)) False (int (Suc 0)) (int (0 * 4))
                (int (0 * 4 + ?c)) i (?v1 ! i) = Inr (w ! i)" by simp
    note f = update_row_part[OF this]
    show ?thesis
    proof (cases "i = k")
      case True
      have "?v1 ! i ! (0 * 4 + ?c) \<noteq> AVAILIBLE"
        unfolding True v1k by (simp del: replicate.simps)
      with f have "w ! i = ?v1 ! i" by simp
      then show ?thesis unfolding True v1k new_k .
    next
      case ne: False
      have same: "crowd_state (Suc k) ! i = ?v ! i"
        using i ne k False by (auto simp: crowd_state_row crowd_cell_def simp del: replicate.simps)
      show ?thesis
      proof (cases "?v ! i ! (0 * 4 + ?c) = AVAILIBLE")
        case av: True
        then have m: "i mod 4 = ?c" using i
          by (auto simp: crowd_state_nth split: if_splits)
        have g: "i div 4 \<noteq> k div 4"
        proof
          assume "i div 4 = k div 4"
          then have "i = k" using m by (metis div_mult_mod_eq)
          with ne show False by simp
        qed
        from f av v1o[OF ne] obtain up sp a where
          up: "dict_get (users crowd) (str (int i + 1)) = Inr up"
          and sp: "dict_get (sats crowd) (str (int (Suc 0))) = Inr sp"
          and a: "calculate_angle_degrees sp (crowd_pos (k div 4)) up = Inr a"
          and w: "w ! i = (if a < self_interference_max then (?v1 ! i)[0 * 4 + ?c := UNAVAILIBLE] else ?v1 ! i)"
          by auto
        have "up = crowd_pos (i div 4)" "sp = Vector3 0 0 0"
          using up sp crowd_lookup[OF i] crowd_sat by simp_all
        moreover have "k div 4 < 9" "i div 4 < 9" using k i by simp_all
        ultimately have "\<not> a < self_interference_max"
          using crowd_angles[of "k div 4" "i div 4"] g a by auto
        with w v1o[OF ne] same show ?thesis by simp
      next
        case False
        with f v1o[OF ne] have "w ! i = ?v ! i" by simp
        with same show ?thesis by simp
      qed
    qed
  qed
  have "w = crowd_state (Suc k)"
    using len row by (simp add: list_eq_iff_nth_eq crowd_state_length)
  with st sol' show ?thesis by simp
qed

lemma solve_prefix_Suc:
  "solve_prefix sc v (Suc k) =
     (case solve_prefix sc v k of
        Inl e \<Rightarrow> Inl e
      | Inr st \<Rightarrow> schedule_user sc (length (v ! 0)) k st)"
  by (cases v) (auto simp: solve_prefix_def py_get_0 fold_err_append split: sum.splits)

lemma crowd_row0: "length (crowd_state 0 ! 0) = 4"
  by (simp add: crowd_state_row_length)

lemma crowd_prefix:
  "k \<le> 32 \<Longrightarrow> solve_prefix crowd (crowd_state 0) k = Inr (crowd_state k, crowd_sol k)"
proof (induction k)
  case 0
  have "crowd_state 0 \<noteq> []" using crowd_state_length[of 0] by auto
  then show ?case
    by (cases "crowd_state 0") (simp_all add: solve_prefix_def py_get_0 crowd_sol_def)
next
  case (Suc k)
  then show ?case
    using crowd_step[of k] by (simp add: solve_prefix_Suc crowd_row0)
qed

lemma crowd_last:
  "schedule_user crowd 4 32 (crowd_state 32, crowd_sol 32) = Inr (crowd_state 32, crowd_sol 32)"
  by (rule schedule_user_none)
     (auto simp: crowd_state_length crowd_state_row_length crowd_state_nth crowd_cell_def)

lemma upt_32:
  "[0..<32] = [0, 1, 2, 3, 4, 5, 6, 7, 8, 9, 10, 11, 12, 13, 14, 15, 16, 17, 18, 19, 20, 21, 22,
               23, 24, 25, 26, 27, 28, 29, 30, 31]"
  by code_simp

lemma crowd_literals:
  "crowd_state 0 = crowd_matrix" "crowd_state 32 = crowd_final" "crowd_sol 32 = crowd_solution"
  unfolding crowd_state_def crowd_sol_def crowd_matrix_def crowd_final_def crowd_solution_def
    upt_33 upt_32
  by (simp_all add: crowd_cell_def replicate_4)

lemma crowd_run: "solve_prefix crowd crowd_matrix 33 = Inr (crowd_final, crowd_solution)"
proof -
  have e: "(33::nat) = Suc 32" by simp
  have "solve_prefix crowd (crowd_state 0) 33 = Inr (crowd_state 32, crowd_sol 32)"
    unfolding e solve_prefix_Suc
    using crowd_prefix[of 32] crowd_last by (simp add: crowd_row0)
  then show ?thesis by (simp only: crowd_literals)
qed

lemma crowd_count:
  "length (filter (\<lambda>r. fst r = 1) (records_of crowd_solution)) = beams_per_satellite"
  by (simp add: records_of_def crowd_solution_def beams_per_satellite_def)

lemma crowd_cells:
  "crowd_matrix ! 32 ! 0 = AVAILIBLE" "crowd_final ! 32 ! 0 = UNAVAILIBLE"
  "33 \<notin> set (map (\<lambda>r. fst (snd (snd r))) (records_of crowd_solution))"
  by (simp_all add: crowd_matrix_def crowd_final_def crowd_solution_def records_of_def)

lemma saturating_propagation_example:
  "update_visibility
     [[AVAILIBLE, AVAILIBLE, AVAILIBLE, AVAILIBLE], [AVAILIBLE, IN_USE, UNAVAILIBLE, AVAILIBLE]]
     two_users 0 (int (Suc 0)) 0 31
   = Inr [[IN_USE, UNAVAILIBLE, UNAVAILIBLE, UNAVAILIBLE], [UNAVAILIBLE, IN_USE, UNAVAILIBLE, UNAVAILIBLE]]"
  by (simp add: solver_defs two_users_def str_small upt4)

lemma crowd_before_last:
  "schedule_user crowd 4 31 (crowd_state 31, crowd_sol 31) = Inr (crowd_final, crowd_solution)"
proof -
  have e: "Suc 31 = 32" by simp
  show ?thesis using crowd_step[of 31] unfolding e crowd_literals by simp
qed

lemma crowd_before_last_facts:
  "crowd_state 31 ! 31 ! 3 = AVAILIBLE" "length (crowd_state 31) = 33"
  "crowd_state 31 ! 31 ! 0 = UNAVAILIBLE" "crowd_state 31 ! 31 ! 1 = UNAVAILIBLE"
  "crowd_state 31 ! 31 ! 2 = UNAVAILIBLE"
  "length (beams_of (crowd_sol 31) 1) = 31"
  using crowd_sol_beams[of 31]
  by (simp_all add: crowd_state_length crowd_state_nth crowd_cell_def)

text \<open>
  Claim C2. After any number of iterations of the solver (all of them for \<open>solve\<close>, by
  \<open>solve_as_prefix\<close>), every satellite has at most \<open>beams_per_satellite\<close> records.
  When a satellite has that many, no cell of any of its colours is available in any row,
  and every later state of the run has the same records for it. On a ready matrix the run
  returns. The iteration that assigns the 32nd beam of a satellite succeeds and leaves no
  cell of the satellite available in any row: the propagation with beam index 31 returns
  the matrix in which the assigned cell is \<open>IN_USE\<close>, every other available cell of the four
  colours of the satellite is \<open>UNAVAILIBLE\<close>, in every row, and nothing else has changed.
\<close>

theorem capacity_never_exceeded:
  "(solve_prefix sc v k = Inr (v', sol) \<longrightarrow>
      (\<forall>sat. length (filter (\<lambda>r. fst r = sat) (records_of sol)) \<le> beams_per_satellite \<and>
           (length (filter (\<lambda>r. fst r = sat) (records_of sol)) = beams_per_satellite \<longrightarrow>
              (\<forall>i < length v'. \<forall>j < length (v' ! i).
                 (sat - 1) * colors_per_satellite \<le> j \<and>
                 j < (sat - 1) * colors_per_satellite + colors_per_satellite \<longrightarrow>
                 v' ! i ! j \<noteq> AVAILIBLE) \<and>
              (\<forall>k' st'. k \<le> k' \<and> solve_prefix sc v k' = Inr st' \<longrightarrow>
                 filter (\<lambda>r. fst r = sat) (records_of (snd st'))
                   = filter (\<lambda>r. fst r = sat) (records_of sol))))) \<and>
   (solver_ready sc m v \<and> k \<le> length v \<longrightarrow> (\<exists>st. solve_prefix sc v k = Inr st)) \<and>
   (solver_ready sc m v \<and> i < length v \<and> j < m * colors_per_satellite \<and>
    v ! i ! j = AVAILIBLE \<and> (\<forall>x < j. v ! i ! x \<noteq> AVAILIBLE) \<and>
    length (beams_of sol0 (j div colors_per_satellite + 1)) = beams_per_satellite - 1 \<longrightarrow>
      (\<exists>w sol'. schedule_user sc (m * colors_per_satellite) i (v, sol0) = Inr (w, sol') \<and>
         length (beams_of sol' (j div colors_per_satellite + 1)) = beams_per_satellite \<and>
         (\<forall>u < length w. \<forall>x < length (w ! u).
            (j div colors_per_satellite) * colors_per_satellite \<le> x \<and>
            x < (j div colors_per_satellite) * colors_per_satellite + colors_per_satellite \<longrightarrow>
            w ! u ! x \<noteq> AVAILIBLE))) \<and>
   (t < length v \<and> c < colors_per_satellite \<and>
    dict_get (users sc) (str (int t + 1)) = Inr tp \<and>
    (\<forall>r < length v. s * colors_per_satellite + colors_per_satellite \<le> length (v ! r)) \<longrightarrow>
      (\<exists>w. update_visibility v sc t (int (Suc s)) c (beams_per_satellite - 1) = Inr w \<and>
           length w = length v \<and>
           (\<forall>r < length v. length (w ! r) = length (v ! r) \<and>
              (\<forall>x < length (v ! r).
                 w ! r ! x = (if r = t \<and> x = s * colors_per_satellite + c then IN_USE
                              else if s * colors_per_satellite \<le> x \<and>
                                      x < s * colors_per_satellite + colors_per_satellite \<and>
                                      v ! r ! x = AVAILIBLE
                                   then UNAVAILIBLE else v ! r ! x)))))"
proof (intro conjI impI)
  assume "solve_prefix sc v k = Inr (v', sol)"
  from solve_prefix_bounded[OF this]
  show "\<forall>sat. length (filter (\<lambda>r. fst r = sat) (records_of sol)) \<le> beams_per_satellite \<and>
           (length (filter (\<lambda>r. fst r = sat) (records_of sol)) = beams_per_satellite \<longrightarrow>
              (\<forall>i < length v'. \<forall>j < length (v' ! i).
                 (sat - 1) * colors_per_satellite \<le> j \<and>
                 j < (sat - 1) * colors_per_satellite + colors_per_satellite \<longrightarrow>
                 v' ! i ! j \<noteq> AVAILIBLE) \<and>
              (\<forall>k' st'. k \<le> k' \<and> solve_prefix sc v k' = Inr st' \<longrightarrow>
                 filter (\<lambda>r. fst r = sat) (records_of (snd st'))
                   = filter (\<lambda>r. fst r = sat) (records_of sol)))" .
next
  assume "solver_ready sc m v \<and> k \<le> length v"
  then show "\<exists>st. solve_prefix sc v k = Inr st" using solve_prefix_total[of sc m v k] by blast
next
  assume h: "solver_ready sc m v \<and> i < length v \<and> j < m * colors_per_satellite \<and>
    v ! i ! j = AVAILIBLE \<and> (\<forall>x < j. v ! i ! x \<noteq> AVAILIBLE) \<and>
    length (beams_of sol0 (j div colors_per_satellite + 1)) = beams_per_satellite - 1"
  then have "solver_ready sc m v" "i < length v" "j < m * 4" "v ! i ! j = AVAILIBLE"
    "\<forall>x < j. v ! i ! x \<noteq> AVAILIBLE" "length (beams_of sol0 (j div 4 + 1)) = 31"
    by (simp_all add: colors_per_satellite_def beams_per_satellite_def)
  from schedule_user_saturates[OF this]
  show "\<exists>w sol'. schedule_user sc (m * colors_per_satellite) i (v, sol0) = Inr (w, sol') \<and>
         length (beams_of sol' (j div colors_per_satellite + 1)) = beams_per_satellite \<and>
         (\<forall>u < length w. \<forall>x < length (w ! u).
            (j div colors_per_satellite) * colors_per_satellite \<le> x \<and>
            x < (j div colors_per_satellite) * colors_per_satellite + colors_per_satellite \<longrightarrow>
            w ! u ! x \<noteq> AVAILIBLE)"
    by (simp add: colors_per_satellite_def beams_per_satellite_def)
next
  assume h: "t < length v \<and> c < colors_per_satellite \<and>
    dict_get (users sc) (str (int t + 1)) = Inr tp \<and>
    (\<forall>r < length v. s * colors_per_satellite + colors_per_satellite \<le> length (v ! r))"
  then have "t < length v" "c < 4" "dict_get (users sc) (str (int t + 1)) = Inr tp"
    "\<forall>r < length v. s * 4 + 4 \<le> length (v ! r)"
    by (simp_all add: colors_per_satellite_def)
  note f = update_visibility_full[OF this]
  have e: "beams_per_satellite - 1 = 31" "colors_per_satellite = 4"
    by (simp_all add: colors_per_satellite_def beams_per_satellite_def)
  show "\<exists>w. update_visibility v sc t (int (Suc s)) c (beams_per_satellite - 1) = Inr w \<and>
           length w = length v \<and>
           (\<forall>r < length v. length (w ! r) = length (v ! r) \<and>
              (\<forall>x < length (v ! r).
                 w ! r ! x = (if r = t \<and> x = s * colors_per_satellite + c then IN_USE
                              else if s * colors_per_satellite \<le> x \<and>
                                      x < s * colors_per_satellite + colors_per_satellite \<and>
                                      v ! r ! x = AVAILIBLE
                                   then UNAVAILIBLE else v ! r ! x)))"
    unfolding e by (rule f)
qed

theorem capacity_never_exceeded_witness:
  "solve_prefix crowd crowd_matrix 33 = Inr (crowd_final, crowd_solution) \<and>
   length (filter (\<lambda>r. fst r = 1) (records_of crowd_solution)) = beams_per_satellite \<and>
   crowd_matrix ! 32 ! 0 = AVAILIBLE \<and> crowd_final ! 32 ! 0 \<noteq> AVAILIBLE \<and>
   33 \<notin> set (map (\<lambda>r. fst (snd (snd r))) (records_of crowd_solution)) \<and>
   (\<exists>st. solve_prefix crowd (crowd_state 31) 33 = Inr st) \<and>
   schedule_user crowd 4 31 (crowd_state 31, crowd_sol 31) = Inr (crowd_final, crowd_solution) \<and>
   length (beams_of (crowd_sol 31) 1) = beams_per_satellite - 1 \<and>
   length (beams_of crowd_solution 1) = beams_per_satellite \<and>
   update_visibility
     [[AVAILIBLE, AVAILIBLE, AVAILIBLE, AVAILIBLE], [AVAILIBLE, IN_USE, UNAVAILIBLE, AVAILIBLE]]
     two_users 0 (int (Suc 0)) 0 (beams_per_satellite - 1)
   = Inr [[IN_USE, UNAVAILIBLE, UNAVAILIBLE, UNAVAILIBLE], [UNAVAILIBLE, IN_USE, UNAVAILIBLE, UNAVAILIBLE]]"
proof -
  let ?M = "[[AVAILIBLE, AVAILIBLE, AVAILIBLE, AVAILIBLE], [AVAILIBLE, IN_USE, UNAVAILIBLE, AVAILIBLE]]"
  have e: "beams_per_satellite - 1 = 31" "colors_per_satellite = 4"
    by (simp_all add: colors_per_satellite_def beams_per_satellite_def)
  have bound: "\<forall>sat. length (filter (\<lambda>r. fst r = sat) (records_of crowd_solution)) \<le> beams_per_satellite \<and>
           (length (filter (\<lambda>r. fst r = sat) (records_of crowd_solution)) = beams_per_satellite \<longrightarrow>
              (\<forall>i < length crowd_final. \<forall>j < length (crowd_final ! i).
                 (sat - 1) * colors_per_satellite \<le> j \<and>
                 j < (sat - 1) * colors_per_satellite + colors_per_satellite \<longrightarrow>
                 crowd_final ! i ! j \<noteq> AVAILIBLE) \<and>
              (\<forall>k' st'. 33 \<le> k' \<and> solve_prefix crowd crowd_matrix k' = Inr st' \<longrightarrow>
                 filter (\<lambda>r. fst r = sat) (records_of (snd st'))
                   = filter (\<lambda>r. fst r = sat) (records_of crowd_solution)))"
    by (rule capacity_never_exceeded[where sc = crowd and v = crowd_matrix and k = 33
          and v' = crowd_final and sol = crowd_solution, THEN conjunct1, THEN mp, OF crowd_run])
  have lens: "length crowd_final = 33" "length (crowd_final ! 32) = 4"
    using crowd_state_length[of 32] crowd_state_row_length[of 32 32]
    by (simp_all add: crowd_literals)
  from bound[THEN spec, of 1] crowd_count
  have "\<forall>i < length crowd_final. \<forall>j < length (crowd_final ! i).
                 (1 - 1) * colors_per_satellite \<le> j \<and>
                 j < (1 - 1) * colors_per_satellite + colors_per_satellite \<longrightarrow>
                 crowd_final ! i ! j \<noteq> AVAILIBLE" by blast
  from this[THEN spec, of 32, THEN mp, THEN spec, of 0, THEN mp, THEN mp] lens
  have refused: "crowd_final ! 32 ! 0 \<noteq> AVAILIBLE" by (simp add: e)
  have total: "\<exists>st. solve_prefix crowd (crowd_state 31) 33 = Inr st"
    by (rule capacity_never_exceeded[where sc = crowd and v = "crowd_state 31" and k = 33 and m = 1,
          THEN conjunct2, THEN conjunct1, THEN mp])
       (simp add: crowd_ready[unfolded One_nat_def] crowd_state_length)
  have d: "3 div colors_per_satellite + 1 = 1" "(3::nat) < 1 * colors_per_satellite"
    by (simp_all add: e)
  have nav: "\<forall>x < 3. crowd_state 31 ! 31 ! x \<noteq> AVAILIBLE"
    by (simp add: crowd_state_nth)
  have hyp: "solver_ready crowd 1 (crowd_state 31) \<and> 31 < length (crowd_state 31) \<and>
    3 < 1 * colors_per_satellite \<and> crowd_state 31 ! 31 ! 3 = AVAILIBLE \<and>
    (\<forall>x < 3. crowd_state 31 ! 31 ! x \<noteq> AVAILIBLE) \<and>
    length (beams_of (crowd_sol 31) (3 div colors_per_satellite + 1)) = beams_per_satellite - 1"
    unfolding d(1) e(1)
    using crowd_ready[of 31] crowd_before_last_facts(1,2,6) d(2) nav
    by (intro conjI) simp_all
  have "\<exists>w sol'. schedule_user crowd (1 * colors_per_satellite) 31 (crowd_state 31, crowd_sol 31)
                    = Inr (w, sol') \<and>
         length (beams_of sol' (3 div colors_per_satellite + 1)) = beams_per_satellite \<and>
         (\<forall>u < length w. \<forall>x < length (w ! u).
            (3 div colors_per_satellite) * colors_per_satellite \<le> x \<and>
            x < (3 div colors_per_satellite) * colors_per_satellite + colors_per_satellite \<longrightarrow>
            w ! u ! x \<noteq> AVAILIBLE)"
    by (rule capacity_never_exceeded[where sc = crowd and v = "crowd_state 31" and m = 1
          and i = 31 and j = 3 and ?sol0.0 = "crowd_sol 31",
          THEN conjunct2, THEN conjunct2, THEN conjunct1, THEN mp])
       (rule hyp)
  then obtain w' sol' where
    "schedule_user crowd (1 * colors_per_satellite) 31 (crowd_state 31, crowd_sol 31) = Inr (w', sol')"
    "length (beams_of sol' (3 div colors_per_satellite + 1)) = beams_per_satellite"
    by blast
  then have full: "length (beams_of crowd_solution 1) = beams_per_satellite"
    unfolding d(1) e(2) using crowd_before_last by simp
  have "\<exists>w. update_visibility ?M two_users 0 (int (Suc 0)) 0 (beams_per_satellite - 1) = Inr w \<and>
           length w = length ?M \<and>
           (\<forall>r < length ?M. length (w ! r) = length (?M ! r) \<and>
              (\<forall>x < length (?M ! r).
                 w ! r ! x = (if r = 0 \<and> x = 0 * colors_per_satellite + 0 then IN_USE
                              else if 0 * colors_per_satellite \<le> x \<and>
                                      x < 0 * colors_per_satellite + colors_per_satellite \<and>
                                      ?M ! r ! x = AVAILIBLE
                                   then UNAVAILIBLE else ?M ! r ! x)))"
    by (rule capacity_never_exceeded[where sc = two_users and t = 0 and c = 0
          and s = 0 and tp = "Vector3 7 0 24" and v = ?M,
          THEN conjunct2, THEN conjunct2, THEN conjunct2, THEN mp])
       (simp add: e two_users_def dict_get_def str_small less_Suc_eq)
  then obtain w where w: "update_visibility ?M two_users 0 (int (Suc 0)) 0 (beams_per_satellite - 1) = Inr w"
    by blast
  have sat_prop: "update_visibility ?M two_users 0 (int (Suc 0)) 0 (beams_per_satellite - 1)
    = Inr [[IN_USE, UNAVAILIBLE, UNAVAILIBLE, UNAVAILIBLE], [UNAVAILIBLE, IN_USE, UNAVAILIBLE, UNAVAILIBLE]]"
    using w saturating_propagation_example unfolding e by simp
  have b31: "length (beams_of (crowd_sol 31) 1) = beams_per_satellite - 1"
    unfolding e by (rule crowd_before_last_facts)
  show ?thesis
    using crowd_run crowd_count crowd_cells(1) refused crowd_cells(3) total crowd_before_last b31
      full sat_prop
    by (intro conjI)
qed

end
